theory Spec2Isabelle
  imports Main "HOL-Library.Sublist" "HOL-Library.List_Lexorder" "HOL-Library.AList"
begin

section \<open>Strings\<close>

text \<open>
  A Python \<^verbatim>\<open>str\<close> is a sequence of Unicode code points. A string is modelled as the list
  of its code points, so that \<^verbatim>\<open>len\<close> is \<open>length\<close>, a slice \<^verbatim>\<open>s[:i]\<close> is \<open>take i s\<close>,
  \<^verbatim>\<open>s[i:]\<close> is \<open>drop i s\<close> and \<^verbatim>\<open>+\<close> is list append. \<open>str_of\<close> writes an ASCII literal as such a list.
\<close>

type_synonym str = "nat list"

definition str_of :: "string \<Rightarrow> str" where
  "str_of s = map of_char s"

section \<open>The regular expression engine\<close>

text \<open>
  The script compiles one pattern with \<^verbatim>\<open>re.DOTALL\<close> and calls \<^verbatim>\<open>search\<close> on it. The
  pattern uses three kinds of node only: a literal, the lazy \<^verbatim>\<open>.*?\<close> (under DOTALL the dot
  takes every character, newlines too) and the greedy \<^verbatim>\<open>\s*\<close>. Python's engine is a
  backtracking matcher: a node is tried against the input with the rest of the pattern
  as its continuation \<open>k\<close>; a lazy node offers the continuation the shortest span first, a
  greedy one the longest first, and the first alternative whose continuation succeeds
  wins. Each function returns the span its node consumed, paired with what the
  continuation returned.
\<close>

text \<open>
  \<^verbatim>\<open>\s\<close> in a \<^verbatim>\<open>str\<close> pattern is Unicode white space: the characters for which
  \<^verbatim>\<open>str.isspace\<close> holds.
\<close>

definition is_space :: "nat \<Rightarrow> bool" where
  "is_space c \<longleftrightarrow>
     (9 \<le> c \<and> c \<le> 13) \<or> (28 \<le> c \<and> c \<le> 32) \<or> c = 133 \<or> c = 160 \<or> c = 5760 \<or>
     (8192 \<le> c \<and> c \<le> 8202) \<or> c = 8232 \<or> c = 8233 \<or> c = 8239 \<or> c = 8287 \<or> c = 12288"

definition literal :: "str \<Rightarrow> (str \<Rightarrow> 'a option) \<Rightarrow> str \<Rightarrow> (str \<times> 'a) option" where
  "literal l k s = (if prefix l s then map_option (Pair l) (k (drop (length l) s)) else None)"

fun any_lazy :: "(str \<Rightarrow> 'a option) \<Rightarrow> str \<Rightarrow> (str \<times> 'a) option" where
  "any_lazy k [] = map_option (Pair []) (k [])"
| "any_lazy k (c # s) =
     (case k (c # s) of
        Some a \<Rightarrow> Some ([], a)
      | None \<Rightarrow> map_option (\<lambda>(p, a). (c # p, a)) (any_lazy k s))"

fun space_greedy :: "(str \<Rightarrow> 'a option) \<Rightarrow> str \<Rightarrow> (str \<times> 'a) option" where
  "space_greedy k [] = map_option (Pair []) (k [])"
| "space_greedy k (c # s) =
     (if is_space c then
        (case space_greedy k s of
           Some (p, a) \<Rightarrow> Some (c # p, a)
         | None \<Rightarrow> map_option (Pair []) (k (c # s)))
      else map_option (Pair []) (k (c # s)))"

datatype node = Literal str | Any_Lazy | Space_Greedy

text \<open>
  \<open>match_here ns s\<close> matches the node sequence \<open>ns\<close> at the start of \<open>s\<close>. It returns the
  span of every node, in order, and the input left after the match.
\<close>

primrec match_here :: "node list \<Rightarrow> str \<Rightarrow> (str list \<times> str) option" where
  "match_here [] = (\<lambda>s. Some ([], s))"
| "match_here (n # ns) = (\<lambda>s.
     map_option (\<lambda>(p, ps, r). (p # ps, r))
       ((case n of
           Literal l \<Rightarrow> literal l
         | Any_Lazy \<Rightarrow> any_lazy
         | Space_Greedy \<Rightarrow> space_greedy) (match_here ns) s))"

text \<open>
  A pattern is the list of its capture groups, each a node sequence (this pattern has
  no node outside a group and no nested group). A match object holds \<^verbatim>\<open>start()\<close>,
  \<^verbatim>\<open>end()\<close> and the text of each group.
\<close>

record match_obj =
  m_start :: nat
  m_end :: nat
  groups :: "str list"

definition group :: "match_obj \<Rightarrow> nat \<Rightarrow> str" where
  "group m i = groups m ! (i - 1)"

fun split_groups :: "node list list \<Rightarrow> str list \<Rightarrow> str list" where
  "split_groups [] ps = []"
| "split_groups (g # gs) ps =
     concat (take (length g) ps) # split_groups gs (drop (length g) ps)"

definition match_at :: "node list list \<Rightarrow> nat \<Rightarrow> str \<Rightarrow> match_obj option" where
  "match_at re i s =
     (case match_here (concat re) s of
        None \<Rightarrow> None
      | Some (ps, r) \<Rightarrow>
          Some \<lparr>m_start = i, m_end = i + length (concat ps), groups = split_groups re ps\<rparr>)"

text \<open>\<^verbatim>\<open>search\<close> tries every start offset from the left, the end of the text included.\<close>

fun search_from :: "node list list \<Rightarrow> nat \<Rightarrow> str \<Rightarrow> match_obj option" where
  "search_from re i [] = match_at re i []"
| "search_from re i (c # s) =
     (case match_at re i (c # s) of
        Some m \<Rightarrow> Some m
      | None \<Rightarrow> search_from re (Suc i) s)"

definition search :: "node list list \<Rightarrow> str \<Rightarrow> match_obj option" where
  "search re s = search_from re 0 s"

section \<open>The pattern of the script\<close>

definition div_open :: str where
  "div_open = str_of ''<div class=\"display-inner\">''"

definition doctype :: str where
  "doctype = str_of ''<!DOCTYPE html>''"

definition body_open :: str where
  "body_open = str_of ''<body''"

definition tag_end :: str where
  "tag_end = str_of ''>''"

definition body_close :: str where
  "body_close = str_of ''</body>''"

definition html_close :: str where
  "html_close = str_of ''</html>''"

definition div_close :: str where
  "div_close = str_of ''</div>''"

definition pattern :: "node list list" where
  "pattern =
     [[Literal div_open, Any_Lazy],
      [Literal doctype, Any_Lazy, Literal body_open, Any_Lazy, Literal tag_end],
      [Any_Lazy],
      [Literal body_close, Space_Greedy, Literal html_close],
      [Any_Lazy, Literal div_close]]"

section \<open>Files, console and errors\<close>

text \<open>
  The script reads and writes files of one directory and prints to the console. The
  directory is the one \<^verbatim>\<open>main\<close> resolves from the location of the script; the world the
  script runs in is that directory (absent, or its entries by name) and the trace of the
  effects performed so far, in order: the reads that returned a text, the writes and the
  lines printed, one constructor for each \<^verbatim>\<open>print\<close> of the script.

  The \<open>data\<close> of an entry is the text \<^verbatim>\<open>read_text\<close> returns for it, decoded and with line
  ends as Python translates them, and \<open>None\<close> when reading raises (no permission, bytes
  that are not UTF-8, an entry that is a directory). \<^verbatim>\<open>write_text\<close> replaces that text; it
  raises on an entry that is not \<open>writable\<close>, and creates an entry that is missing. An
  exception is the \<open>Inl\<close> of a result, returned with the world as it is at the raise.
\<close>

datatype message =
  No_directory
| Found_nested str
| Fixed_nested str
| Processed nat nat

datatype event = Read_text str | Write_text str str | Print message

datatype io_error = Read_failed str | Write_failed str

record entry =
  data :: "str option"
  writable :: bool

record world =
  html_dir :: "(str \<times> entry) list option"
  trace :: "event list"

definition emit :: "event \<Rightarrow> world \<Rightarrow> world" where
  "emit e w = w\<lparr>trace := trace w @ [e]\<rparr>"

definition lookup_file :: "world \<Rightarrow> str \<Rightarrow> entry option" where
  "lookup_file w p = (case html_dir w of None \<Rightarrow> None | Some es \<Rightarrow> map_of es p)"

definition read_text :: "str \<Rightarrow> world \<Rightarrow> (io_error + str) \<times> world" where
  "read_text p w =
     (case lookup_file w p of
        None \<Rightarrow> (Inl (Read_failed p), w)
      | Some f \<Rightarrow>
          (case data f of
             None \<Rightarrow> (Inl (Read_failed p), w)
           | Some t \<Rightarrow> (Inr t, emit (Read_text p) w)))"

definition store :: "str \<Rightarrow> str \<Rightarrow> world \<Rightarrow> world" where
  "store p t w =
     w\<lparr>html_dir := map_option (AList.update p \<lparr>data = Some t, writable = True\<rparr>) (html_dir w)\<rparr>"

definition write_text :: "str \<Rightarrow> str \<Rightarrow> world \<Rightarrow> (io_error + unit) \<times> world" where
  "write_text p t w =
     (if html_dir w = None then (Inl (Write_failed p), w)
      else
        (case lookup_file w p of
           None \<Rightarrow> (Inr (), emit (Write_text p t) (store p t w))
         | Some f \<Rightarrow>
             if writable f then (Inr (), emit (Write_text p t) (store p t w))
             else (Inl (Write_failed p), w)))"

section \<open>The script\<close>

text \<open>
  The text written back: the three kept groups, spliced between what precedes the match
  and what follows it.
\<close>

definition new_content :: "str \<Rightarrow> match_obj \<Rightarrow> str" where
  "new_content content m =
     (let pre_inner_div = group m 1;
          inner_body_content = group m 3;
          post_inner_div = group m 5;
          new_embedded_content = pre_inner_div @ inner_body_content @ post_inner_div
      in take (m_start m) content @ new_embedded_content @ drop (m_end m) content)"

definition fix_nested_html :: "str \<Rightarrow> world \<Rightarrow> (io_error + bool) \<times> world" where
  "fix_nested_html file_path w =
     (case read_text file_path w of
        (Inl e, w1) \<Rightarrow> (Inl e, w1)
      | (Inr content, w1) \<Rightarrow>
          (case search pattern content of
             None \<Rightarrow> (Inr False, w1)
           | Some m \<Rightarrow>
               (case write_text file_path (new_content content m)
                       (emit (Print (Found_nested file_path)) w1) of
                  (Inl e, w3) \<Rightarrow> (Inl e, w3)
                | (Inr u, w3) \<Rightarrow> (Inr True, emit (Print (Fixed_nested file_path)) w3))))"

text \<open>
  \<^verbatim>\<open>html_dir.glob('*.html')\<close> yields the entries of the directory whose name ends in
  \<^verbatim>\<open>.html\<close>, in the order of the directory; \<^verbatim>\<open>sorted\<close> orders the paths, which differ in
  their last component only, by name, code point by code point (the order of
  \<open>HOL-Library.List_Lexorder\<close> on lists of code points).
\<close>

definition glob_html :: "(str \<times> entry) list \<Rightarrow> str list" where
  "glob_html es = filter (suffix (str_of ''.html'')) (map fst es)"

text \<open>The \<^verbatim>\<open>for\<close> loop of \<^verbatim>\<open>main\<close>, with \<^verbatim>\<open>fixed_count\<close> as its accumulator.\<close>

fun for_files :: "str list \<Rightarrow> nat \<Rightarrow> world \<Rightarrow> (io_error + nat) \<times> world" where
  "for_files [] fixed_count w = (Inr fixed_count, w)"
| "for_files (file_path # rest) fixed_count w =
     (case fix_nested_html file_path w of
        (Inl e, w') \<Rightarrow> (Inl e, w')
      | (Inr b, w') \<Rightarrow> for_files rest (if b then fixed_count + 1 else fixed_count) w')"

definition main :: "world \<Rightarrow> (io_error + unit) \<times> world" where
  "main w =
     (case html_dir w of
        None \<Rightarrow> (Inr (), emit (Print No_directory) w)
      | Some es \<Rightarrow>
          (let html_files = sort (glob_html es) in
             (case for_files html_files 0 w of
                (Inl e, w') \<Rightarrow> (Inl e, w')
              | (Inr fixed_count, w') \<Rightarrow>
                  (Inr (), emit (Print (Processed (length html_files) fixed_count)) w'))))"

section \<open>Notions used to state the properties\<close>

text \<open>What one node may have consumed: a literal its own text, \<^verbatim>\<open>\s*\<close> white space only.\<close>

fun conforms :: "node \<Rightarrow> str \<Rightarrow> bool" where
  "conforms (Literal l) p \<longleftrightarrow> p = l"
| "conforms Any_Lazy p \<longleftrightarrow> True"
| "conforms Space_Greedy p \<longleftrightarrow> (\<forall>c \<in> set p. is_space c)"

text \<open>
  \<open>first_at l x\<close>: no occurrence of the literal \<open>l\<close> begins inside \<open>x\<close>, so that in
  \<open>x\<close> followed by \<open>l\<close> the first occurrence of \<open>l\<close> is the one that follows \<open>x\<close>.
\<close>

definition first_at :: "str \<Rightarrow> str \<Rightarrow> bool" where
  "first_at l x \<longleftrightarrow> \<not> sublist l (x @ butlast l)"

text \<open>
  A nested document inside its wrapper, from the wrapper's opening tag to its closing
  tag: \<open>x\<close> precedes the inner document, \<open>h\<close> lies between its DOCTYPE and its body tag,
  \<open>a\<close> is the attributes of the body tag, \<open>inner\<close> is the content of the body, \<open>ws\<close>
  separates the two closing tags and \<open>y\<close> follows the inner document.
\<close>

definition nested_doc :: "str \<Rightarrow> str \<Rightarrow> str \<Rightarrow> str \<Rightarrow> str \<Rightarrow> str \<Rightarrow> str" where
  "nested_doc x h a inner ws y =
     div_open @ x @ doctype @ h @ body_open @ a @ tag_end @ inner @ body_close @ ws @
     html_close @ y @ div_close"

text \<open>
  A text has a single occurrence when the pattern matches in it and does not match again
  in what follows the match (the matches \<^verbatim>\<open>finditer\<close> would enumerate are exactly one).
\<close>

definition single_occurrence :: "str \<Rightarrow> bool" where
  "single_occurrence t \<longleftrightarrow>
     (case search pattern t of
        None \<Rightarrow> False
      | Some m \<Rightarrow> search pattern (drop (m_end m) t) = None)"

text \<open>The files read and the files written, in order, according to a trace.\<close>

primrec reads_of :: "event list \<Rightarrow> str list" where
  "reads_of [] = []"
| "reads_of (e # es) = (case e of Read_text p \<Rightarrow> p # reads_of es | _ \<Rightarrow> reads_of es)"

primrec writes_of :: "event list \<Rightarrow> str list" where
  "writes_of [] = []"
| "writes_of (e # es) = (case e of Write_text p t \<Rightarrow> p # writes_of es | _ \<Rightarrow> writes_of es)"

text \<open>
  \<open>has_nested w p\<close>: the file \<open>p\<close> can be read and the pattern matches in its text.
  \<open>usable w p\<close>: the file \<open>p\<close> can be read and written.
\<close>

definition has_nested :: "world \<Rightarrow> str \<Rightarrow> bool" where
  "has_nested w p \<longleftrightarrow>
     (case lookup_file w p of
        None \<Rightarrow> False
      | Some f \<Rightarrow> (case data f of None \<Rightarrow> False | Some t \<Rightarrow> search pattern t \<noteq> None))"

definition usable :: "world \<Rightarrow> str \<Rightarrow> bool" where
  "usable w p \<longleftrightarrow>
     (case lookup_file w p of None \<Rightarrow> False | Some f \<Rightarrow> data f \<noteq> None \<and> writable f)"

section \<open>Example inputs\<close>

text \<open>The scenario of the specification, its expected result and the match found in it.\<close>

definition scenario :: str where
  "scenario = str_of ''<div class=\"display-inner\">X<!DOCTYPE html><html><body class=\"x\">INNER</body></html>Y</div>''"

definition scenario_fixed :: str where
  "scenario_fixed = str_of ''<div class=\"display-inner\">XINNERY</div>''"

definition scenario_match :: match_obj where
  "scenario_match =
     \<lparr>m_start = 0, m_end = 91,
      groups = [str_of ''<div class=\"display-inner\">X'',
                str_of ''<!DOCTYPE html><html><body class=\"x\">'',
                str_of ''INNER'',
                str_of ''</body></html>'',
                str_of ''Y</div>'']\<rparr>"

text \<open>A directory that holds one page, with the given text.\<close>

definition index_html :: str where
  "index_html = str_of ''index.html''"

definition one_file :: "str \<Rightarrow> world" where
  "one_file t =
     \<lparr>html_dir = Some [(index_html, \<lparr>data = Some t, writable = True\<rparr>)], trace = []\<rparr>"

text \<open>A page without a nested document: its only DOCTYPE precedes the wrapper.\<close>

definition clean_page :: str where
  "clean_page = str_of ''<!DOCTYPE html><html><body><div class=\"display-inner\">plain</div></body></html>''"

text \<open>
  A page whose wrapper holds a nested document, with line breaks around the inner tags,
  the same page once fixed, and the match found in the page: it starts after the opening
  of the outer document and ends before its closing tags.
\<close>

definition nested_page :: str where
  "nested_page = str_of ''<!DOCTYPE html><html><body><div class=\"display-inner\"><h1>T</h1><!DOCTYPE html>\<newline><html><head></head><body id=\"b\">INNER</body>\<newline></html>\<newline></div></body></html>''"

definition nested_page_fixed :: str where
  "nested_page_fixed = str_of ''<!DOCTYPE html><html><body><div class=\"display-inner\"><h1>T</h1>INNER\<newline></div></body></html>''"

definition nested_page_match :: match_obj where
  "nested_page_match =
     \<lparr>m_start = 27, m_end = 139,
      groups = [str_of ''<div class=\"display-inner\"><h1>T</h1>'',
                str_of ''<!DOCTYPE html>\<newline><html><head></head><body id=\"b\">'',
                str_of ''INNER'',
                str_of ''</body>\<newline></html>'',
                str_of ''\<newline></div>'']\<rparr>"

text \<open>
  Two wrappers, each with a nested document; what follows the first match; the two
  matches.
\<close>

definition two_wrappers :: str where
  "two_wrappers = str_of ''<div class=\"display-inner\"><!DOCTYPE html><html><body>A</body></html></div><p>between</p><div class=\"display-inner\"><!DOCTYPE html><html><body>B</body></html></div>''"

definition two_wrappers_tail :: str where
  "two_wrappers_tail = str_of ''<p>between</p><div class=\"display-inner\"><!DOCTYPE html><html><body>B</body></html></div>''"

definition two_wrappers_first :: match_obj where
  "two_wrappers_first =
     \<lparr>m_start = 0, m_end = 75,
      groups = [str_of ''<div class=\"display-inner\">'', str_of ''<!DOCTYPE html><html><body>'',
                str_of ''A'', str_of ''</body></html>'', str_of ''</div>'']\<rparr>"

definition two_wrappers_second :: match_obj where
  "two_wrappers_second =
     \<lparr>m_start = 14, m_end = 89,
      groups = [str_of ''<div class=\"display-inner\">'', str_of ''<!DOCTYPE html><html><body>'',
                str_of ''B'', str_of ''</body></html>'', str_of ''</div>'']\<rparr>"

text \<open>The two wrappers once the fix has run.\<close>

definition two_wrappers_fixed :: str where
  "two_wrappers_fixed = str_of ''<div class=\"display-inner\">A</div><p>between</p><div class=\"display-inner\"><!DOCTYPE html><html><body>B</body></html></div>''"

text \<open>
  A wrapper with a nested document, followed by a second inner document in a division of
  another class: the text, what follows the first match, the text after one fix, the
  match found in the text and the match found in the text after one fix.
\<close>

definition two_documents :: str where
  "two_documents = str_of ''<div class=\"display-inner\"><!DOCTYPE html><html><body>I</body></html></div><div class=\"other\"><!DOCTYPE html><html><body>Z</body></html></div>''"

definition two_documents_tail :: str where
  "two_documents_tail = str_of ''<div class=\"other\"><!DOCTYPE html><html><body>Z</body></html></div>''"

definition two_documents_once :: str where
  "two_documents_once = str_of ''<div class=\"display-inner\">I</div><div class=\"other\"><!DOCTYPE html><html><body>Z</body></html></div>''"

definition two_documents_first :: match_obj where
  "two_documents_first =
     \<lparr>m_start = 0, m_end = 75,
      groups = [str_of ''<div class=\"display-inner\">'', str_of ''<!DOCTYPE html><html><body>'',
                str_of ''I'', str_of ''</body></html>'', str_of ''</div>'']\<rparr>"

definition two_documents_again :: match_obj where
  "two_documents_again =
     \<lparr>m_start = 0, m_end = 101,
      groups = [str_of ''<div class=\"display-inner\">I</div><div class=\"other\">'',
                str_of ''<!DOCTYPE html><html><body>'',
                str_of ''Z'', str_of ''</body></html>'', str_of ''</div>'']\<rparr>"

text \<open>
  A directory of three pages and a file that is not a page, of which one page has a
  nested document; a directory whose second page cannot be read, before the run and when
  the run is aborted.
\<close>

definition a_html :: str where "a_html = str_of ''a.html''"
definition b_html :: str where "b_html = str_of ''b.html''"
definition c_html :: str where "c_html = str_of ''c.html''"

definition three_pages :: world where
  "three_pages =
     \<lparr>html_dir = Some
        [(c_html, \<lparr>data = Some (str_of ''<p>hello</p>''), writable = True\<rparr>),
         (a_html, \<lparr>data = Some scenario, writable = True\<rparr>),
         (str_of ''notes.txt'', \<lparr>data = None, writable = False\<rparr>),
         (b_html, \<lparr>data = Some clean_page, writable = True\<rparr>)],
      trace = []\<rparr>"

definition broken_batch :: world where
  "broken_batch =
     \<lparr>html_dir = Some
        [(a_html, \<lparr>data = Some scenario, writable = True\<rparr>),
         (b_html, \<lparr>data = None, writable = True\<rparr>),
         (c_html, \<lparr>data = Some scenario, writable = True\<rparr>)],
      trace = []\<rparr>"

definition broken_batch_aborted :: world where
  "broken_batch_aborted =
     \<lparr>html_dir = Some
        [(a_html, \<lparr>data = Some scenario_fixed, writable = True\<rparr>),
         (b_html, \<lparr>data = None, writable = True\<rparr>),
         (c_html, \<lparr>data = Some scenario, writable = True\<rparr>)],
      trace = [Read_text a_html, Print (Found_nested a_html), Write_text a_html scenario_fixed,
               Print (Fixed_nested a_html)]\<rparr>"

section \<open>The matcher: what a match is made of\<close>

lemma literal_Some_iff:
  "literal l k s = Some (p, a) \<longleftrightarrow> p = l \<and> prefix l s \<and> k (drop (length l) s) = Some a"
  by (auto simp: literal_def)

lemma any_lazy_sound:
  "any_lazy k s = Some (p, a) \<Longrightarrow> \<exists>s'. s = p @ s' \<and> k s' = Some a"
proof (induction s arbitrary: p a)
  case Nil
  then show ?case by auto
next
  case (Cons c s)
  show ?case
  proof (cases "k (c # s)")
    case None
    with Cons.prems obtain p' where p': "any_lazy k s = Some (p', a)" "p = c # p'"
      by auto
    from Cons.IH [OF p'(1)] p'(2) show ?thesis by auto
  next
    case (Some b)
    with Cons.prems show ?thesis by auto
  qed
qed

lemma any_lazy_least:
  "any_lazy k s = Some (p, a) \<Longrightarrow> j < length p \<Longrightarrow> k (drop j s) = None"
proof (induction s arbitrary: p a j)
  case Nil
  then show ?case by auto
next
  case (Cons c s)
  show ?case
  proof (cases "k (c # s)")
    case None
    with Cons.prems obtain p' where p': "any_lazy k s = Some (p', a)" "p = c # p'"
      by auto
    show ?thesis
    proof (cases j)
      case 0
      with None show ?thesis by simp
    next
      case (Suc i)
      with Cons.prems p' have "i < length p'" by simp
      from Cons.IH [OF p'(1) this] Suc show ?thesis by simp
    qed
  next
    case (Some b)
    with Cons.prems show ?thesis by auto
  qed
qed

lemma any_lazy_complete:
  "k s' = Some a \<Longrightarrow> (\<forall>j < length p. k (drop j (p @ s')) = None) \<Longrightarrow>
   any_lazy k (p @ s') = Some (p, a)"
proof (induction p)
  case Nil
  then show ?case by (cases s') auto
next
  case (Cons c p)
  from Cons.prems(2) have "k (c # p @ s') = None" by fastforce
  moreover have "\<forall>j < length p. k (drop j (p @ s')) = None"
  proof (intro allI impI)
    fix j assume "j < length p"
    then have "Suc j < length (c # p)" by simp
    with Cons.prems(2) have "k (drop (Suc j) ((c # p) @ s')) = None" by blast
    then show "k (drop j (p @ s')) = None" by simp
  qed
  ultimately show ?case using Cons.IH [OF Cons.prems(1)] by simp
qed

lemma space_greedy_sound:
  "space_greedy k s = Some (p, a) \<Longrightarrow> \<exists>s'. s = p @ s' \<and> k s' = Some a \<and> (\<forall>c \<in> set p. is_space c)"
proof (induction s arbitrary: p a)
  case Nil
  then show ?case by auto
next
  case (Cons c s)
  then show ?case
    by (fastforce split: if_splits option.splits)
qed

lemma space_greedy_complete:
  "k s' = Some a \<Longrightarrow> \<forall>c \<in> set p. is_space c \<Longrightarrow> s' = [] \<or> \<not> is_space (hd s') \<Longrightarrow>
   space_greedy k (p @ s') = Some (p, a)"
proof (induction p)
  case Nil
  then show ?case by (cases s') auto
next
  case (Cons c p)
  then show ?case by simp
qed

lemma match_here_sound:
  "match_here ns s = Some (ps, r) \<Longrightarrow> s = concat ps @ r \<and> list_all2 conforms ns ps"
proof (induction ns arbitrary: s ps r)
  case Nil
  then show ?case by simp
next
  case (Cons n ns)
  show ?case
  proof (cases n)
    case (Literal l)
    with Cons.prems obtain p qs where q: "literal l (match_here ns) s = Some (p, qs, r)" "ps = p # qs"
      by auto
    then have "p = l" "prefix l s" "match_here ns (drop (length l) s) = Some (qs, r)"
      by (simp_all add: literal_Some_iff)
    with Cons.IH [of "drop (length l) s" qs r] q(2) Literal show ?thesis
      by (auto simp: prefix_def)
  next
    case Any_Lazy
    with Cons.prems obtain p qs where q: "any_lazy (match_here ns) s = Some (p, qs, r)" "ps = p # qs"
      by auto
    from any_lazy_sound [OF q(1)] obtain s' where "s = p @ s'" "match_here ns s' = Some (qs, r)"
      by blast
    with Cons.IH [of s' qs r] q(2) Any_Lazy show ?thesis by auto
  next
    case Space_Greedy
    with Cons.prems obtain p qs where q: "space_greedy (match_here ns) s = Some (p, qs, r)" "ps = p # qs"
      by auto
    from space_greedy_sound [OF q(1)] obtain s' where
      "s = p @ s'" "match_here ns s' = Some (qs, r)" "\<forall>c \<in> set p. is_space c"
      by blast
    with Cons.IH [of s' qs r] q(2) Space_Greedy show ?thesis by auto
  qed
qed

lemma match_at_offset:
  "match_at re i s = Some m \<Longrightarrow>
   \<exists>ps r. match_here (concat re) s = Some (ps, r) \<and> m_start m = i \<and>
     m_end m = i + length (concat ps) \<and> groups m = split_groups re ps"
  by (auto simp: match_at_def split: option.splits)

lemma search_from_Some:
  "search_from re i s = Some m \<Longrightarrow>
   \<exists>j \<le> length s. match_at re (i + j) (drop j s) = Some m \<and>
     (\<forall>j' < j. match_at re (i + j') (drop j' s) = None)"
proof (induction s arbitrary: i)
  case Nil
  then show ?case by simp
next
  case (Cons c s)
  show ?case
  proof (cases "match_at re i (c # s)")
    case None
    with Cons.prems have "search_from re (Suc i) s = Some m" by simp
    from Cons.IH [OF this] obtain j where j: "j \<le> length s"
      "match_at re (Suc i + j) (drop j s) = Some m"
      "\<forall>j' < j. match_at re (Suc i + j') (drop j' s) = None"
      by blast
    have "\<forall>j' < Suc j. match_at re (i + j') (drop j' (c # s)) = None"
    proof (intro allI impI)
      fix j' assume "j' < Suc j"
      then show "match_at re (i + j') (drop j' (c # s)) = None"
        using None j(3) by (cases j') auto
    qed
    with j(1,2) show ?thesis
      by (intro exI [of _ "Suc j"]) simp
  next
    case (Some m')
    with Cons.prems have "m' = m" by simp
    with Some show ?thesis
      by (intro exI [of _ 0]) simp
  qed
qed

lemma search_from_None:
  "search_from re i s = None \<Longrightarrow> j \<le> length s \<Longrightarrow> match_at re (i + j) (drop j s) = None"
proof (induction s arbitrary: i j)
  case Nil
  then show ?case by simp
next
  case (Cons c s)
  show ?case
  proof (cases j)
    case 0
    with Cons.prems show ?thesis by (auto split: option.splits)
  next
    case (Suc n)
    with Cons.prems have "search_from re (Suc i) s = None" "n \<le> length s"
      by (auto split: option.splits)
    from Cons.IH [OF this] Suc show ?thesis by simp
  qed
qed

lemma pattern_nodes:
  "concat pattern =
     [Literal div_open, Any_Lazy, Literal doctype, Any_Lazy, Literal body_open, Any_Lazy,
      Literal tag_end, Any_Lazy, Literal body_close, Space_Greedy, Literal html_close,
      Any_Lazy, Literal div_close]"
  by (simp add: pattern_def)

lemma split_groups_pattern:
  "split_groups pattern [p0, p1, p2, p3, p4, p5, p6, p7, p8, p9, p10, p11, p12] =
     [p0 @ p1, p2 @ p3 @ p4 @ p5 @ p6, p7, p8 @ p9 @ p10, p11 @ p12]"
  by (simp add: pattern_def)

lemma match_here_pattern_shape:
  assumes "match_here (concat pattern) s = Some (ps, r)"
  shows "\<exists>x h a inner ws y.
     ps = [div_open, x, doctype, h, body_open, a, tag_end, inner, body_close, ws, html_close,
           y, div_close] \<and> (\<forall>c \<in> set ws. is_space c) \<and> s = concat ps @ r"
proof -
  from match_here_sound [OF assms] have s: "s = concat ps @ r"
    and c: "list_all2 conforms (concat pattern) ps" by simp_all
  from c show ?thesis
    unfolding pattern_nodes using s
    by (auto simp: list_all2_Cons1)
qed

lemma search_pattern_Some:
  assumes "search pattern t = Some m"
  shows "\<exists>pre x h a inner ws y post.
     t = pre @ nested_doc x h a inner ws y @ post \<and>
     (\<forall>c \<in> set ws. is_space c) \<and>
     m_start m = length pre \<and>
     m_end m = length pre + length (nested_doc x h a inner ws y) \<and>
     groups m = [div_open @ x, doctype @ h @ body_open @ a @ tag_end, inner,
                 body_close @ ws @ html_close, y @ div_close] \<and>
     (\<forall>j < m_start m. match_at pattern j (drop j t) = None)"
proof -
  from assms have "search_from pattern 0 t = Some m" by (simp add: search_def)
  from search_from_Some [OF this] obtain j where j: "j \<le> length t"
    "match_at pattern j (drop j t) = Some m"
    "\<forall>j' < j. match_at pattern j' (drop j' t) = None"
    by auto
  from match_at_offset [OF j(2)] obtain ps r where m:
    "match_here (concat pattern) (drop j t) = Some (ps, r)" "m_start m = j"
    "m_end m = j + length (concat ps)" "groups m = split_groups pattern ps"
    by blast
  from match_here_pattern_shape [OF m(1)] obtain x h a inner ws y where ps:
    "ps = [div_open, x, doctype, h, body_open, a, tag_end, inner, body_close, ws, html_close,
           y, div_close]"
    "\<forall>c \<in> set ws. is_space c" "drop j t = concat ps @ r"
    by blast
  have cat: "concat ps = nested_doc x h a inner ws y"
    by (simp add: ps(1) nested_doc_def)
  have "t = take j t @ drop j t" by simp
  with ps(3) cat have t: "t = take j t @ nested_doc x h a inner ws y @ r" by simp
  have len: "length (take j t) = j" using j(1) by simp
  have g: "groups m = [div_open @ x, doctype @ h @ body_open @ a @ tag_end, inner,
                 body_close @ ws @ html_close, y @ div_close]"
    unfolding m(4) ps(1) split_groups_pattern by simp
  show ?thesis
    apply (rule exI [of _ "take j t"])
    apply (rule exI [of _ x], rule exI [of _ h], rule exI [of _ a], rule exI [of _ inner])
    apply (rule exI [of _ ws], rule exI [of _ y], rule exI [of _ r])
    using t ps(2) len m(2,3) cat g j(3) by simp
qed

lemma new_content_splice:
  assumes "t = pre @ nested_doc x h a inner ws y @ post"
    and "m_start m = length pre"
    and "m_end m = length pre + length (nested_doc x h a inner ws y)"
    and "groups m = [div_open @ x, doctype @ h @ body_open @ a @ tag_end, inner,
                 body_close @ ws @ html_close, y @ div_close]"
  shows "new_content t m = pre @ div_open @ x @ inner @ y @ div_close @ post"
  using assms by (simp add: new_content_def group_def Let_def)

section \<open>The matcher: which match is found\<close>

lemma prefix_overlap:
  assumes "prefix l (q @ l @ r)" "q \<noteq> []"
  shows "prefix l (q @ butlast l)"
proof (cases "l = []")
  case True
  then show ?thesis by simp
next
  case False
  then have l: "l = butlast l @ [last l]" by simp
  have "length l \<le> length (q @ butlast l)"
    using assms(2) by (cases q) simp_all
  moreover have "prefix l ((q @ butlast l) @ ([last l] @ r))"
    using assms(1) l by (metis append.assoc)
  ultimately show ?thesis
    by (metis prefix_length_prefix prefixI append.assoc)
qed

lemma first_at_no_prefix:
  assumes "first_at l x" "j < length x"
  shows "\<not> prefix l (drop j (x @ l @ r))"
proof
  assume p: "prefix l (drop j (x @ l @ r))"
  from assms(2) have d: "drop j (x @ l @ r) = drop j x @ l @ r" "drop j x \<noteq> []" by simp_all
  from prefix_overlap [OF p [unfolded d(1)] d(2)] have "prefix l (drop j x @ butlast l)" .
  then obtain z where "drop j x @ butlast l = l @ z" by (auto simp: prefix_def)
  then have "x @ butlast l = take j x @ l @ z"
    by (metis append.assoc append_take_drop_id)
  then have "sublist l (x @ butlast l)" by (auto simp: sublist_def)
  with assms(1) show False by (simp add: first_at_def)
qed

lemma match_here_Literal:
  "match_here (Literal l # ns) (l @ s) =
     map_option (\<lambda>(ps, r). (l # ps, r)) (match_here ns s)"
  by (cases "match_here ns s") (auto simp: literal_def)

lemma match_here_Literal_fail:
  "\<not> prefix l s \<Longrightarrow> match_here (Literal l # ns) s = None"
  by (simp add: literal_def)

lemma match_here_lazy_literal:
  assumes "first_at l x" "match_here ns s = Some (ps, r)"
  shows "match_here (Any_Lazy # Literal l # ns) (x @ l @ s) = Some (x # l # ps, r)"
proof -
  let ?k = "match_here (Literal l # ns)"
  have k: "?k (l @ s) = Some (l # ps, r)"
    using assms(2) by (simp only: match_here_Literal) simp
  have "\<forall>j < length x. ?k (drop j (x @ l @ s)) = None"
    using first_at_no_prefix [OF assms(1)] match_here_Literal_fail by blast
  from any_lazy_complete [OF k this] show ?thesis by simp
qed

lemma match_here_space_literal:
  assumes "\<forall>c \<in> set ws. is_space c" "l \<noteq> []" "\<not> is_space (hd l)"
    "match_here ns s = Some (ps, r)"
  shows "match_here (Space_Greedy # Literal l # ns) (ws @ l @ s) = Some (ws # l # ps, r)"
proof -
  let ?k = "match_here (Literal l # ns)"
  have k: "?k (l @ s) = Some (l # ps, r)"
    using assms(4) by (simp only: match_here_Literal) simp
  have "l @ s = [] \<or> \<not> is_space (hd (l @ s))" using assms(2,3) by simp
  from space_greedy_complete [of ?k "l @ s" "(l # ps, r)" ws, OF k assms(1) this]
  show ?thesis by simp
qed

lemma html_close_no_space: "html_close \<noteq> [] \<and> \<not> is_space (hd html_close)"
  by (simp add: html_close_def str_of_def is_space_def)

lemma match_here_nested_doc:
  assumes "first_at doctype x" "first_at body_open h" "first_at tag_end a"
    "first_at body_close inner" "\<forall>c \<in> set ws. is_space c" "first_at div_close y"
  shows "match_here (concat pattern) (nested_doc x h a inner ws y @ post) =
     Some ([div_open, x, doctype, h, body_open, a, tag_end, inner, body_close, ws, html_close,
            y, div_close], post)"
proof -
  have 1: "match_here [] post = Some ([], post)" by simp
  note 2 = match_here_lazy_literal [OF assms(6) 1]
  note 3 = match_here_space_literal [OF assms(5) html_close_no_space [THEN conjunct1]
      html_close_no_space [THEN conjunct2] 2]
  have 4: "match_here (Literal body_close # Space_Greedy # Literal html_close #
             [Any_Lazy, Literal div_close]) (body_close @ ws @ html_close @ y @ div_close @ post)
           = Some (body_close # ws # html_close # [y, div_close], post)"
    using 3 by (simp only: match_here_Literal) simp
  have 5: "match_here (Any_Lazy # Literal body_close # Space_Greedy # Literal html_close #
             [Any_Lazy, Literal div_close])
             (inner @ body_close @ ws @ html_close @ y @ div_close @ post)
           = Some (inner # body_close # ws # html_close # [y, div_close], post)"
    using match_here_lazy_literal [OF assms(4) 3] .
  note 6 = match_here_lazy_literal [OF assms(3) 5]
  note 7 = match_here_lazy_literal [OF assms(2) 6]
  note 8 = match_here_lazy_literal [OF assms(1) 7]
  have "match_here (Literal div_open # Any_Lazy # Literal doctype # Any_Lazy #
          Literal body_open # Any_Lazy # Literal tag_end # Any_Lazy # Literal body_close #
          Space_Greedy # Literal html_close # [Any_Lazy, Literal div_close])
          (div_open @ x @ doctype @ h @ body_open @ a @ tag_end @ inner @ body_close @ ws @
           html_close @ y @ div_close @ post)
        = Some (div_open # x # doctype # h # body_open # a # tag_end # inner # body_close #
            ws # html_close # [y, div_close], post)"
    using 8 by (simp only: match_here_Literal) simp
  then show ?thesis
    by (simp only: pattern_nodes nested_doc_def append.assoc)
qed

lemma search_from_complete:
  assumes "\<forall>j < length pre. match_at re (i + j) (drop j (pre @ s)) = None"
    "match_at re (i + length pre) s = Some m"
  shows "search_from re i (pre @ s) = Some m"
  using assms
proof (induction pre arbitrary: i)
  case Nil
  then show ?case by (cases s) simp_all
next
  case (Cons c pre)
  from Cons.prems(1) have 0: "match_at re i (c # pre @ s) = None" by fastforce
  have "\<forall>j < length pre. match_at re (Suc i + j) (drop j (pre @ s)) = None"
  proof (intro allI impI)
    fix j assume "j < length pre"
    then have "Suc j < length (c # pre)" by simp
    with Cons.prems(1) have "match_at re (i + Suc j) (drop (Suc j) ((c # pre) @ s)) = None"
      by blast
    then show "match_at re (Suc i + j) (drop j (pre @ s)) = None" by simp
  qed
  moreover from Cons.prems(2) have "match_at re (Suc i + length pre) s = Some m" by simp
  ultimately have "search_from re (Suc i) (pre @ s) = Some m" by (rule Cons.IH)
  with 0 show ?case by simp
qed

lemma search_nested_doc:
  assumes "first_at div_open pre" "first_at doctype x" "first_at body_open h"
    "first_at tag_end a" "first_at body_close inner" "\<forall>c \<in> set ws. is_space c"
    "first_at div_close y"
  shows "search pattern (pre @ nested_doc x h a inner ws y @ post) =
     Some \<lparr>m_start = length pre,
           m_end = length pre + length (nested_doc x h a inner ws y),
           groups = [div_open @ x, doctype @ h @ body_open @ a @ tag_end, inner,
                     body_close @ ws @ html_close, y @ div_close]\<rparr>"
proof -
  let ?s = "nested_doc x h a inner ws y @ post"
  have s: "?s = div_open @ (x @ doctype @ h @ body_open @ a @ tag_end @ inner @ body_close @
     ws @ html_close @ y @ div_close @ post)"
    by (simp add: nested_doc_def)
  have "\<forall>j < length pre. match_at pattern (0 + j) (drop j (pre @ ?s)) = None"
  proof (intro allI impI)
    fix j assume "j < length pre"
    from first_at_no_prefix [OF assms(1) this]
    have "\<not> prefix div_open (drop j (pre @ ?s))" unfolding s .
    then have "match_here (concat pattern) (drop j (pre @ ?s)) = None"
      unfolding pattern_nodes by (rule match_here_Literal_fail)
    then show "match_at pattern (0 + j) (drop j (pre @ ?s)) = None"
      by (simp add: match_at_def)
  qed
  moreover have "match_at pattern (0 + length pre) ?s =
     Some \<lparr>m_start = length pre,
           m_end = length pre + length (nested_doc x h a inner ws y),
           groups = [div_open @ x, doctype @ h @ body_open @ a @ tag_end, inner,
                     body_close @ ws @ html_close, y @ div_close]\<rparr>"
    unfolding match_at_def match_here_nested_doc [OF assms(2-7)]
    by (simp add: split_groups_pattern) (simp add: nested_doc_def)
  ultimately show ?thesis
    unfolding search_def by (rule search_from_complete)
qed

section \<open>Files and the loop\<close>

lemma emit_simps [simp]:
  "html_dir (emit e w) = html_dir w"
  "trace (emit e w) = trace w @ [e]"
  "lookup_file (emit e w) p = lookup_file w p"
  by (simp_all add: emit_def lookup_file_def)

lemma trace_store [simp]: "trace (store p t w) = trace w"
  by (simp add: store_def)

lemma lookup_file_store:
  "html_dir w = Some es \<Longrightarrow>
   lookup_file (store p t w) q =
     (if q = p then Some \<lparr>data = Some t, writable = True\<rparr> else lookup_file w q)"
  by (auto simp: store_def lookup_file_def update_conv')

lemma lookup_file_dir: "lookup_file w p = Some f \<Longrightarrow> \<exists>es. html_dir w = Some es"
  by (cases "html_dir w") (simp_all add: lookup_file_def)

lemma reads_of_append [simp]: "reads_of (xs @ ys) = reads_of xs @ reads_of ys"
  by (induction xs) (auto split: event.splits)

lemma writes_of_append [simp]: "writes_of (xs @ ys) = writes_of xs @ writes_of ys"
  by (induction xs) (auto split: event.splits)

lemma fix_nested_html_changed:
  assumes "lookup_file w p = Some f" "data f = Some t" "writable f" "search pattern t = Some m"
  shows "fix_nested_html p w =
     (Inr True,
      emit (Print (Fixed_nested p))
        (emit (Write_text p (new_content t m))
           (store p (new_content t m)
              (emit (Print (Found_nested p)) (emit (Read_text p) w)))))"
  using assms lookup_file_dir [OF assms(1)]
  by (auto simp: fix_nested_html_def read_text_def write_text_def)

lemma fix_nested_html_unchanged:
  assumes "lookup_file w p = Some f" "data f = Some t" "search pattern t = None"
  shows "fix_nested_html p w = (Inr False, emit (Read_text p) w)"
  using assms by (simp add: fix_nested_html_def read_text_def)

lemma fix_nested_html_unreadable:
  assumes "fst (read_text p w) = Inl e"
  shows "fix_nested_html p w = (Inl (Read_failed p), w) \<and> e = Read_failed p"
  using assms by (auto simp: fix_nested_html_def read_text_def split: option.splits)

lemma fix_nested_html_usable:
  assumes "usable w p"
  shows "\<exists>w'. fix_nested_html p w = (Inr (has_nested w p), w') \<and>
     reads_of (trace w') = reads_of (trace w) @ [p] \<and>
     writes_of (trace w') = writes_of (trace w) @ (if has_nested w p then [p] else []) \<and>
     (\<forall>q. q \<noteq> p \<longrightarrow> lookup_file w' q = lookup_file w q)"
proof -
  from assms obtain f t where f: "lookup_file w p = Some f" "data f = Some t" "writable f"
    by (auto simp: usable_def split: option.splits)
  from lookup_file_dir [OF f(1)] obtain es where d: "html_dir w = Some es" ..
  show ?thesis
  proof (cases "search pattern t")
    case None
    then have "\<not> has_nested w p" using f by (simp add: has_nested_def)
    with fix_nested_html_unchanged [OF f(1,2) None] d show ?thesis by simp
  next
    case (Some m)
    then have "has_nested w p" using f by (simp add: has_nested_def)
    with fix_nested_html_changed [OF f Some] d show ?thesis
      by (simp add: lookup_file_store [of _ es])
  qed
qed

lemma for_files_usable:
  assumes "distinct ps" "\<forall>p \<in> set ps. usable w p"
  shows "\<exists>w'. for_files ps n w = (Inr (n + length (filter (has_nested w) ps)), w') \<and>
     reads_of (trace w') = reads_of (trace w) @ ps \<and>
     writes_of (trace w') = writes_of (trace w) @ filter (has_nested w) ps \<and>
     (\<forall>q. q \<notin> set ps \<longrightarrow> lookup_file w' q = lookup_file w q)"
  using assms
proof (induction ps arbitrary: n w)
  case Nil
  then show ?case by simp
next
  case (Cons p ps)
  from Cons.prems have "usable w p" by simp
  from fix_nested_html_usable [OF this] obtain w1 where w1:
    "fix_nested_html p w = (Inr (has_nested w p), w1)"
    "reads_of (trace w1) = reads_of (trace w) @ [p]"
    "writes_of (trace w1) = writes_of (trace w) @ (if has_nested w p then [p] else [])"
    "\<forall>q. q \<noteq> p \<longrightarrow> lookup_file w1 q = lookup_file w q"
    by blast
  from Cons.prems(1) have np: "p \<notin> set ps" and dps: "distinct ps" by simp_all
  have same: "\<forall>q \<in> set ps. lookup_file w1 q = lookup_file w q"
    using w1(4) np by auto
  then have us: "\<forall>q \<in> set ps. usable w1 q"
    using Cons.prems(2) by (simp add: usable_def)
  have hn: "filter (has_nested w1) ps = filter (has_nested w) ps"
    using same by (intro filter_cong) (simp_all add: has_nested_def)
  let ?n = "if has_nested w p then n + 1 else n"
  from Cons.IH [OF dps us, of ?n] obtain w' where w':
    "for_files ps ?n w1 = (Inr (?n + length (filter (has_nested w1) ps)), w')"
    "reads_of (trace w') = reads_of (trace w1) @ ps"
    "writes_of (trace w') = writes_of (trace w1) @ filter (has_nested w1) ps"
    "\<forall>q. q \<notin> set ps \<longrightarrow> lookup_file w' q = lookup_file w1 q"
    by blast
  show ?case
    apply (rule exI [of _ w'])
    using w1 w' hn by auto
qed

lemma for_files_abort:
  assumes "for_files ps n w = (Inr n', w1)" "fix_nested_html p w1 = (Inl e, w2)"
  shows "for_files (ps @ p # qs) n w = (Inl e, w2)"
  using assms
proof (induction ps arbitrary: n w)
  case Nil
  then show ?case by simp
next
  case (Cons a ps)
  from Cons.prems(1) obtain b wa where a: "fix_nested_html a w = (Inr b, wa)"
    by (auto split: prod.splits sum.splits)
  with Cons.prems(1) have "for_files ps (if b then n + 1 else n) wa = (Inr n', w1)"
    by simp
  from Cons.IH [OF this Cons.prems(2)] a show ?case by simp
qed

section \<open>Facts about the example inputs\<close>

lemmas literal_defs =
  div_open_def doctype_def body_open_def tag_end_def body_close_def html_close_def div_close_def

lemma search_scenario: "search pattern scenario = Some scenario_match"
proof -
  have f: "first_at div_open []" "first_at doctype (str_of ''X'')"
    "first_at body_open (str_of ''<html>'')" "first_at tag_end (str_of '' class=\"x\"'')"
    "first_at body_close (str_of ''INNER'')" "\<forall>c \<in> set []. is_space c"
    "first_at div_close (str_of ''Y'')"
    by code_simp+
  have e: "scenario = [] @ nested_doc (str_of ''X'') (str_of ''<html>'') (str_of '' class=\"x\"'')
      (str_of ''INNER'') [] (str_of ''Y'') @ []"
    by (simp add: scenario_def nested_doc_def str_of_def literal_defs)
  show ?thesis
    unfolding scenario_match_def
    by (subst e, simp only: search_nested_doc [OF f])
       (simp add: nested_doc_def str_of_def literal_defs)
qed

lemma new_content_scenario: "new_content scenario scenario_match = scenario_fixed"
  by (simp add: new_content_def scenario_def scenario_match_def scenario_fixed_def group_def
      str_of_def)

lemma search_decompose:
  assumes "search pattern t = Some m"
  shows "t = take (m_start m) t @ group m 1 @ group m 2 @ group m 3 @ group m 4 @ group m 5 @
             drop (m_end m) t"
proof -
  from search_pattern_Some [OF assms] obtain pre x h a inner ws y post where d:
    "t = pre @ nested_doc x h a inner ws y @ post"
    "m_start m = length pre"
    "m_end m = length pre + length (nested_doc x h a inner ws y)"
    "groups m = [div_open @ x, doctype @ h @ body_open @ a @ tag_end, inner,
                 body_close @ ws @ html_close, y @ div_close]"
    by blast
  have "take (m_start m) t = pre" "drop (m_end m) t = post"
    using d(1,2,3) by simp_all
  moreover have "group m 1 @ group m 2 @ group m 3 @ group m 4 @ group m 5 =
     nested_doc x h a inner ws y"
    by (simp add: group_def d(4) nested_doc_def)
  ultimately show ?thesis using d(1) by simp
qed

lemma followed_by_code:
  "(\<exists>u v r. t = u @ a @ v @ b @ r) \<longleftrightarrow>
   list_ex (\<lambda>i. prefix a (drop i t) \<and> sublist b (drop (i + length a) t)) [0..<Suc (length t)]"
proof
  assume "\<exists>u v r. t = u @ a @ v @ b @ r"
  then obtain u v r where t: "t = u @ a @ v @ b @ r" by blast
  have "prefix a (drop (length u) t)" "sublist b (drop (length u + length a) t)"
    "length u < Suc (length t)"
    by (simp_all add: t)
  then show "list_ex (\<lambda>i. prefix a (drop i t) \<and> sublist b (drop (i + length a) t))
     [0..<Suc (length t)]"
    unfolding list_ex_iff by (intro bexI [of _ "length u"]) auto
next
  assume "list_ex (\<lambda>i. prefix a (drop i t) \<and> sublist b (drop (i + length a) t))
     [0..<Suc (length t)]"
  then obtain i where i: "prefix a (drop i t)" "sublist b (drop (i + length a) t)"
    unfolding list_ex_iff by auto
  from i(1) obtain z where z: "drop i t = a @ z" by (auto simp: prefix_def)
  have "drop (i + length a) t = drop (length a) (drop i t)" by (simp add: add.commute)
  with z have "drop (i + length a) t = z" by simp
  with i(2) obtain v r where "z = v @ b @ r" by (auto simp: sublist_def)
  with z have "t = take i t @ a @ v @ b @ r"
    by (metis append_take_drop_id)
  then show "\<exists>u v r. t = u @ a @ v @ b @ r" by blast
qed

lemma search_pattern_None:
  assumes "\<not> (\<exists>u v r. t = u @ div_open @ v @ doctype @ r)"
  shows "search pattern t = None"
proof (rule ccontr)
  assume "search pattern t \<noteq> None"
  then obtain m where "search pattern t = Some m" by auto
  from search_pattern_Some [OF this] obtain pre x h a inner ws y post where
    "t = pre @ nested_doc x h a inner ws y @ post" by blast
  then have "t = pre @ div_open @ x @ doctype @
     (h @ body_open @ a @ tag_end @ inner @ body_close @ ws @ html_close @ y @ div_close @ post)"
    by (simp add: nested_doc_def)
  with assms show False by blast
qed

lemma clean_page_no_nested: "\<not> (\<exists>u v r. clean_page = u @ div_open @ v @ doctype @ r)"
  unfolding followed_by_code by code_simp

lemma subseq_nested_doc:
  "subseq (pre @ div_open @ x @ inner @ y @ div_close @ post)
     (pre @ nested_doc x h a inner ws y @ post)"
proof -
  have 1: "subseq (y @ div_close @ post) (body_close @ ws @ html_close @ y @ div_close @ post)"
    by (metis append.assoc subseq_drop_many subseq_order.order_refl)
  have 2: "subseq (inner @ y @ div_close @ post)
     (doctype @ h @ body_open @ a @ tag_end @ inner @ body_close @ ws @ html_close @ y @
      div_close @ post)"
    using 1 by (metis append.assoc subseq_drop_many list_emb_append_mono subseq_order.order_refl)
  show ?thesis
    unfolding nested_doc_def using 2
    by (simp add: list_emb_append_mono)
qed

lemma new_content_deletes:
  assumes "search pattern t = Some m"
  shows "subseq (new_content t m) t \<and>
     length (new_content t m) + length (group m 2) + length (group m 4) = length t"
proof -
  from search_pattern_Some [OF assms] obtain pre x h a inner ws y post where d:
    "t = pre @ nested_doc x h a inner ws y @ post"
    "m_start m = length pre"
    "m_end m = length pre + length (nested_doc x h a inner ws y)"
    "groups m = [div_open @ x, doctype @ h @ body_open @ a @ tag_end, inner,
                 body_close @ ws @ html_close, y @ div_close]"
    by blast
  note n = new_content_splice [OF d]
  have "subseq (new_content t m) t"
    unfolding n unfolding d(1) by (rule subseq_nested_doc)
  moreover have "length (new_content t m) + length (group m 2) + length (group m 4) = length t"
    unfolding n by (simp add: d(1,4) group_def nested_doc_def)
  ultimately show ?thesis ..
qed

lemma first_at_Nil: "first_at div_open []" "first_at doctype []" "first_at body_open []"
  "first_at tag_end []" "first_at body_close []" "first_at div_close []"
  by code_simp+

lemma first_at_examples:
  "first_at body_open (str_of ''<html>'')"
  "first_at body_close (str_of ''A'')" "first_at body_close (str_of ''B'')"
  "first_at body_close (str_of ''I'')" "first_at body_close (str_of ''Z'')"
  "first_at div_open (str_of ''<p>between</p>'')"
  "first_at doctype (str_of ''I</div><div class=\"other\">'')"
  by code_simp+

lemma no_spaces: "\<forall>c \<in> set []. is_space c"
  by simp

lemma search_two_wrappers: "search pattern two_wrappers = Some two_wrappers_first"
proof -
  have e: "two_wrappers = [] @ nested_doc [] (str_of ''<html>'') [] (str_of ''A'') [] [] @
     two_wrappers_tail"
    by (simp add: two_wrappers_def two_wrappers_tail_def nested_doc_def str_of_def literal_defs)
  show ?thesis
    unfolding two_wrappers_first_def
    by (subst e, simp only: search_nested_doc [OF first_at_Nil(1,2) first_at_examples(1)
          first_at_Nil(4) first_at_examples(2) no_spaces first_at_Nil(6)])
       (simp add: nested_doc_def str_of_def literal_defs)
qed

lemma search_two_wrappers_tail: "search pattern two_wrappers_tail = Some two_wrappers_second"
proof -
  have e: "two_wrappers_tail = str_of ''<p>between</p>'' @
     nested_doc [] (str_of ''<html>'') [] (str_of ''B'') [] [] @ []"
    by (simp add: two_wrappers_tail_def nested_doc_def str_of_def literal_defs)
  show ?thesis
    unfolding two_wrappers_second_def
    by (subst e, simp only: search_nested_doc [OF first_at_examples(6) first_at_Nil(2)
          first_at_examples(1) first_at_Nil(4) first_at_examples(3) no_spaces first_at_Nil(6)])
       (simp add: nested_doc_def str_of_def literal_defs)
qed

lemma drop_two_wrappers: "drop (m_end two_wrappers_first) two_wrappers = two_wrappers_tail"
  by (simp add: two_wrappers_first_def two_wrappers_def two_wrappers_tail_def str_of_def)

lemma leftmost:
  assumes "search pattern t = Some m" "j < m_start m"
  shows "match_at pattern j (drop j t) = None"
proof -
  from search_pattern_Some [OF assms(1)]
  have "\<forall>j < m_start m. match_at pattern j (drop j t) = None"
    by (elim exE conjE)
  with assms(2) show ?thesis by simp
qed

lemma lookup_one_file:
  "lookup_file (one_file t) index_html = Some \<lparr>data = Some t, writable = True\<rparr>"
  by (simp add: one_file_def lookup_file_def)

lemma search_two_documents: "search pattern two_documents = Some two_documents_first"
proof -
  have e: "two_documents = [] @ nested_doc [] (str_of ''<html>'') [] (str_of ''I'') [] [] @
     two_documents_tail"
    by (simp add: two_documents_def two_documents_tail_def nested_doc_def str_of_def literal_defs)
  show ?thesis
    unfolding two_documents_first_def
    by (subst e, simp only: search_nested_doc [OF first_at_Nil(1,2) first_at_examples(1)
          first_at_Nil(4) first_at_examples(4) no_spaces first_at_Nil(6)])
       (simp add: nested_doc_def str_of_def literal_defs)
qed

lemma search_two_documents_tail: "search pattern two_documents_tail = None"
proof -
  have "\<not> (\<exists>u v r. two_documents_tail = u @ div_open @ v @ doctype @ r)"
    unfolding followed_by_code by code_simp
  then show ?thesis by (rule search_pattern_None)
qed

lemma search_two_documents_once: "search pattern two_documents_once = Some two_documents_again"
proof -
  have e: "two_documents_once = [] @ nested_doc (str_of ''I</div><div class=\"other\">'')
     (str_of ''<html>'') [] (str_of ''Z'') [] [] @ []"
    by (simp add: two_documents_once_def nested_doc_def str_of_def literal_defs)
  show ?thesis
    unfolding two_documents_again_def
    by (subst e, simp only: search_nested_doc [OF first_at_Nil(1) first_at_examples(7)
          first_at_examples(1) first_at_Nil(4) first_at_examples(5) no_spaces first_at_Nil(6)])
       (simp add: nested_doc_def str_of_def literal_defs)
qed

lemma new_content_two_documents:
  "new_content two_documents two_documents_first = two_documents_once"
  by (simp add: new_content_def two_documents_def two_documents_first_def two_documents_once_def
      group_def str_of_def)

lemma single_occurrence_two_documents: "single_occurrence two_documents"
proof -
  have "drop (m_end two_documents_first) two_documents = two_documents_tail"
    by (simp add: two_documents_first_def two_documents_def two_documents_tail_def str_of_def)
  then show ?thesis
    by (simp add: single_occurrence_def search_two_documents search_two_documents_tail)
qed

lemma scenario_fixed_no_nested:
  "\<not> (\<exists>u v r. scenario_fixed = u @ div_open @ v @ doctype @ r)"
  unfolding followed_by_code by code_simp

lemmas page_names = a_html_def b_html_def c_html_def

lemma search_hello: "search pattern (str_of ''<p>hello</p>'') = None"
proof -
  have "\<not> (\<exists>u v r. str_of ''<p>hello</p>'' = u @ div_open @ v @ doctype @ r)"
    unfolding followed_by_code by code_simp
  then show ?thesis by (rule search_pattern_None)
qed

lemma search_clean_page: "search pattern clean_page = None"
  using clean_page_no_nested by (rule search_pattern_None)

lemma three_pages_nested:
  "has_nested three_pages a_html" "\<not> has_nested three_pages b_html"
  "\<not> has_nested three_pages c_html"
  by (simp_all add: has_nested_def lookup_file_def three_pages_def page_names str_of_def [of "''a.html''"]
      str_of_def [of "''b.html''"] str_of_def [of "''c.html''"] str_of_def [of "''notes.txt''"]
      search_scenario search_hello search_clean_page)

lemma search_nested_page: "search pattern nested_page = Some nested_page_match"
proof -
  have f: "first_at div_open (str_of ''<!DOCTYPE html><html><body>'')"
    "first_at doctype (str_of ''<h1>T</h1>'')"
    "first_at body_open (str_of ''\<newline><html><head></head>'')"
    "first_at tag_end (str_of '' id=\"b\"'')"
    "first_at body_close (str_of ''INNER'')"
    "\<forall>c \<in> set (str_of ''\<newline>''). is_space c"
    "first_at div_close (str_of ''\<newline>'')"
    by code_simp+
  have e: "nested_page = str_of ''<!DOCTYPE html><html><body>'' @
         nested_doc (str_of ''<h1>T</h1>'') (str_of ''\<newline><html><head></head>'')
           (str_of '' id=\"b\"'') (str_of ''INNER'') (str_of ''\<newline>'') (str_of ''\<newline>'') @
         str_of ''</body></html>''"
    by (simp add: nested_page_def nested_doc_def str_of_def literal_defs)
  show ?thesis
    unfolding nested_page_match_def
    by (subst e, simp only: search_nested_doc [OF f])
       (simp add: nested_doc_def str_of_def literal_defs)
qed

lemma nested_page_frame:
  "take (m_start nested_page_match) nested_page = str_of ''<!DOCTYPE html><html><body>''"
  "drop (m_end nested_page_match) nested_page = str_of ''</body></html>''"
  by (simp_all add: nested_page_match_def nested_page_def str_of_def)

lemma nested_page_spliced:
  "str_of ''<!DOCTYPE html><html><body>'' @ group nested_page_match 1 @
     group nested_page_match 3 @ group nested_page_match 5 @ str_of ''</body></html>'' =
   nested_page_fixed"
  by (simp add: nested_page_match_def nested_page_fixed_def group_def str_of_def)

section \<open>Properties of the script\<close>

text \<open>
  C1: for a file whose text is the scenario of the specification, the fix returns \<open>True\<close>,
  the file then holds exactly \<^verbatim>\<open><div class="display-inner">XINNERY</div>\<close>, and the loop of
  \<open>main\<close> run on that single file leaves its \<open>fixed_count\<close> one higher.
\<close>

theorem scenario_is_fixed_and_counted:
  assumes "lookup_file w p = Some \<lparr>data = Some scenario, writable = True\<rparr>"
  shows "\<exists>w'. fix_nested_html p w = (Inr True, w') \<and>
     lookup_file w' p = Some \<lparr>data = Some scenario_fixed, writable = True\<rparr> \<and>
     for_files [p] fixed_count w = (Inr (fixed_count + 1), w')"
proof -
  from lookup_file_dir [OF assms] obtain es where es: "html_dir w = Some es" ..
  let ?w = "emit (Print (Fixed_nested p))
        (emit (Write_text p scenario_fixed)
           (store p scenario_fixed
              (emit (Print (Found_nested p)) (emit (Read_text p) w))))"
  have 1: "fix_nested_html p w = (Inr True, ?w)"
    using fix_nested_html_changed [OF assms _ _ search_scenario]
    by (simp add: new_content_scenario)
  have 2: "lookup_file ?w p = Some \<lparr>data = Some scenario_fixed, writable = True\<rparr>"
    using es by (simp add: lookup_file_store [of _ es])
  from 1 have 3: "for_files [p] fixed_count w = (Inr (fixed_count + 1), ?w)" by simp
  from 1 2 3 show ?thesis by blast
qed

theorem scenario_is_fixed_and_counted_witness:
  "lookup_file (one_file scenario) index_html =
     Some \<lparr>data = Some scenario, writable = True\<rparr> \<and>
   (\<exists>w'. fix_nested_html index_html (one_file scenario) = (Inr True, w') \<and>
     lookup_file w' index_html = Some \<lparr>data = Some scenario_fixed, writable = True\<rparr> \<and>
     for_files [index_html] 0 (one_file scenario) = (Inr (0 + 1), w'))"
proof -
  have 1: "lookup_file (one_file scenario) index_html =
     Some \<lparr>data = Some scenario, writable = True\<rparr>"
    by (rule lookup_one_file)
  from scenario_is_fixed_and_counted [OF 1, of 0] 1 show ?thesis by blast
qed

text \<open>
  C2: when the text of the file nowhere has the wrapper's opening tag followed, at any
  distance, by \<^verbatim>\<open><!DOCTYPE html>\<close>, the fix returns \<open>False\<close> and the world afterwards is the
  world before with one read added to the trace: nothing is written, the directory and
  the text of the file are what they were.
\<close>

theorem no_nested_document_no_change:
  assumes "lookup_file w p = Some f" and "data f = Some t"
    and "\<not> (\<exists>u v r. t = u @ div_open @ v @ doctype @ r)"
  shows "fix_nested_html p w = (Inr False, w\<lparr>trace := trace w @ [Read_text p]\<rparr>)"
  using fix_nested_html_unchanged [OF assms(1,2) search_pattern_None [OF assms(3)]]
  by (simp add: emit_def)

theorem no_nested_document_no_change_witness:
  "lookup_file (one_file clean_page) index_html =
     Some \<lparr>data = Some clean_page, writable = True\<rparr> \<and>
   data \<lparr>data = Some clean_page, writable = True\<rparr> = Some clean_page \<and>
   \<not> (\<exists>u v r. clean_page = u @ div_open @ v @ doctype @ r) \<and>
   fix_nested_html index_html (one_file clean_page) =
     (Inr False,
      \<lparr>html_dir = Some [(index_html, \<lparr>data = Some clean_page, writable = True\<rparr>)],
       trace = [Read_text index_html]\<rparr>)"
proof -
  have 1: "lookup_file (one_file clean_page) index_html =
     Some \<lparr>data = Some clean_page, writable = True\<rparr>"
    by (rule lookup_one_file)
  have 2: "data \<lparr>data = Some clean_page, writable = True\<rparr> = Some clean_page" by simp
  have 3: "(one_file clean_page)\<lparr>trace := trace (one_file clean_page) @ [Read_text index_html]\<rparr> =
     \<lparr>html_dir = Some [(index_html, \<lparr>data = Some clean_page, writable = True\<rparr>)],
      trace = [Read_text index_html]\<rparr>"
    by (simp add: one_file_def)
  from no_nested_document_no_change [OF 1 2 clean_page_no_nested]
  have "fix_nested_html index_html (one_file clean_page) =
     (Inr False,
      \<lparr>html_dir = Some [(index_html, \<lparr>data = Some clean_page, writable = True\<rparr>)],
       trace = [Read_text index_html]\<rparr>)"
    unfolding 3 .
  with 1 2 clean_page_no_nested show ?thesis by (intro conjI)
qed

text \<open>
  C3: take a text that holds a nested occurrence of the pattern, with any text before and
  after it, well formed as the pattern reads it: no wrapper tag begins before the
  wrapper's, no DOCTYPE begins in \<open>x\<close>, no body tag begins in \<open>h\<close>, the attributes \<open>a\<close> have no
  \<^verbatim>\<open>>\<close>, no \<^verbatim>\<open></body>\<close> begins in the content, \<open>ws\<close> is white space and no \<^verbatim>\<open></div>\<close> begins in \<open>y\<close>.
  Then the fix returns \<open>True\<close>; the spans it removes are the inner boilerplate, group 2
  from \<^verbatim>\<open><!DOCTYPE html>\<close> to the end of the inner body tag and group 4 with the two closing
  tags; the content of the inner body, the rest of the wrapper and the text outside the
  match are kept as they are.
\<close>

theorem nested_document_unwrapped:
  assumes "lookup_file w p =
      Some \<lparr>data = Some (pre @ nested_doc x h a inner ws y @ post), writable = True\<rparr>"
    and "first_at div_open pre" and "first_at doctype x" and "first_at body_open h"
    and "first_at tag_end a" and "first_at body_close inner" and "\<forall>c \<in> set ws. is_space c"
    and "first_at div_close y"
  shows "\<exists>w' m. fix_nested_html p w = (Inr True, w') \<and>
     search pattern (pre @ nested_doc x h a inner ws y @ post) = Some m \<and>
     group m 2 = doctype @ h @ body_open @ a @ tag_end \<and>
     group m 3 = inner \<and>
     group m 4 = body_close @ ws @ html_close \<and>
     lookup_file w' p =
       Some \<lparr>data = Some (pre @ div_open @ x @ inner @ y @ div_close @ post), writable = True\<rparr>"
proof -
  let ?t = "pre @ nested_doc x h a inner ws y @ post"
  let ?m = "\<lparr>m_start = length pre,
           m_end = length pre + length (nested_doc x h a inner ws y),
           groups = [div_open @ x, doctype @ h @ body_open @ a @ tag_end, inner,
                     body_close @ ws @ html_close, y @ div_close]\<rparr>"
  let ?t' = "pre @ div_open @ x @ inner @ y @ div_close @ post"
  from lookup_file_dir [OF assms(1)] obtain es where es: "html_dir w = Some es" ..
  have s: "search pattern ?t = Some ?m"
    by (rule search_nested_doc [OF assms(2-8)])
  have n: "new_content ?t ?m = ?t'"
    by (rule new_content_splice) simp_all
  let ?w = "emit (Print (Fixed_nested p))
        (emit (Write_text p ?t')
           (store p ?t' (emit (Print (Found_nested p)) (emit (Read_text p) w))))"
  have 1: "fix_nested_html p w = (Inr True, ?w)"
    using fix_nested_html_changed [OF assms(1) _ _ s] unfolding n by simp
  have 2: "lookup_file ?w p = Some \<lparr>data = Some ?t', writable = True\<rparr>"
    using es by (simp add: lookup_file_store [of _ es])
  have 3: "group ?m 2 = doctype @ h @ body_open @ a @ tag_end" "group ?m 3 = inner"
    "group ?m 4 = body_close @ ws @ html_close"
    by (simp_all add: group_def)
  from 1 2 3 s show ?thesis by blast
qed

theorem nested_document_unwrapped_witness:
  "lookup_file (one_file nested_page) index_html =
      Some \<lparr>data = Some (str_of ''<!DOCTYPE html><html><body>'' @
         nested_doc (str_of ''<h1>T</h1>'') (str_of ''\<newline><html><head></head>'')
           (str_of '' id=\"b\"'') (str_of ''INNER'') (str_of ''\<newline>'') (str_of ''\<newline>'') @
         str_of ''</body></html>''), writable = True\<rparr> \<and>
   first_at div_open (str_of ''<!DOCTYPE html><html><body>'') \<and>
   first_at doctype (str_of ''<h1>T</h1>'') \<and>
   first_at body_open (str_of ''\<newline><html><head></head>'') \<and>
   first_at tag_end (str_of '' id=\"b\"'') \<and>
   first_at body_close (str_of ''INNER'') \<and>
   list_all is_space (str_of ''\<newline>'') \<and>
   first_at div_close (str_of ''\<newline>'') \<and>
   (\<exists>w'. fix_nested_html index_html (one_file nested_page) = (Inr True, w') \<and>
      lookup_file w' index_html =
        Some \<lparr>data = Some nested_page_fixed, writable = True\<rparr>)"
proof -
  have f: "first_at div_open (str_of ''<!DOCTYPE html><html><body>'')"
    "first_at doctype (str_of ''<h1>T</h1>'')"
    "first_at body_open (str_of ''\<newline><html><head></head>'')"
    "first_at tag_end (str_of '' id=\"b\"'')"
    "first_at body_close (str_of ''INNER'')"
    "\<forall>c \<in> set (str_of ''\<newline>''). is_space c"
    "first_at div_close (str_of ''\<newline>'')"
    by code_simp+
  have e: "nested_page = str_of ''<!DOCTYPE html><html><body>'' @
         nested_doc (str_of ''<h1>T</h1>'') (str_of ''\<newline><html><head></head>'')
           (str_of '' id=\"b\"'') (str_of ''INNER'') (str_of ''\<newline>'') (str_of ''\<newline>'') @
         str_of ''</body></html>''"
    by (simp add: nested_page_def nested_doc_def str_of_def literal_defs)
  have e': "str_of ''<!DOCTYPE html><html><body>'' @ div_open @ str_of ''<h1>T</h1>'' @
      str_of ''INNER'' @ str_of ''\<newline>'' @ div_close @ str_of ''</body></html>'' =
      nested_page_fixed"
    by (simp add: nested_page_fixed_def str_of_def literal_defs)
  have 1: "lookup_file (one_file nested_page) index_html =
      Some \<lparr>data = Some (str_of ''<!DOCTYPE html><html><body>'' @
         nested_doc (str_of ''<h1>T</h1>'') (str_of ''\<newline><html><head></head>'')
           (str_of '' id=\"b\"'') (str_of ''INNER'') (str_of ''\<newline>'') (str_of ''\<newline>'') @
         str_of ''</body></html>''), writable = True\<rparr>"
    unfolding e [symmetric] by (simp add: one_file_def lookup_file_def)
  from nested_document_unwrapped [OF 1 f] obtain w' where
    "fix_nested_html index_html (one_file nested_page) = (Inr True, w')"
    "lookup_file w' index_html =
        Some \<lparr>data = Some nested_page_fixed, writable = True\<rparr>"
    unfolding e' by blast
  moreover from f(6) have "list_all is_space (str_of ''\<newline>'')"
    by (simp only: list_all_iff)
  ultimately show ?thesis using 1 f(1-5,7) by blast
qed

text \<open>
  C4, as stated, fails: the text \<open>two_documents\<close> has a single occurrence of the pattern,
  and yet the fix applied to its own output returns \<open>True\<close> again. Once the first inner
  document is removed, the lazy spans of the pattern reach the second one, which lies
  outside the wrapper.
\<close>

theorem second_fix_counterexample:
  "single_occurrence two_documents \<and>
   fst (fix_nested_html index_html (one_file two_documents)) = Inr True \<and>
   lookup_file (snd (fix_nested_html index_html (one_file two_documents))) index_html =
     Some \<lparr>data = Some two_documents_once, writable = True\<rparr> \<and>
   fst (fix_nested_html index_html (snd (fix_nested_html index_html (one_file two_documents)))) =
     Inr True"
proof -
  let ?w1 = "emit (Print (Fixed_nested index_html))
        (emit (Write_text index_html two_documents_once)
           (store index_html two_documents_once
              (emit (Print (Found_nested index_html))
                 (emit (Read_text index_html) (one_file two_documents)))))"
  have 1: "fix_nested_html index_html (one_file two_documents) = (Inr True, ?w1)"
    using fix_nested_html_changed [OF lookup_one_file _ _ search_two_documents]
    by (simp add: new_content_two_documents)
  have 2: "lookup_file ?w1 index_html = Some \<lparr>data = Some two_documents_once, writable = True\<rparr>"
    by (simp add: lookup_file_store [of _ "[(index_html, \<lparr>data = Some two_documents, writable = True\<rparr>)]"]
        one_file_def index_html_def)
  have 3: "fst (fix_nested_html index_html ?w1) = Inr True"
    using fix_nested_html_changed [OF 2 _ _ search_two_documents_once] by simp
  show ?thesis
    unfolding 1 using single_occurrence_two_documents 2 3 by simp
qed

text \<open>
  C4, amended: when the text written by the fix nowhere has the wrapper's opening tag
  followed, at any distance, by \<^verbatim>\<open><!DOCTYPE html>\<close>, a second call of the fix on it returns
  \<open>False\<close> and leaves the text as the first call wrote it.
\<close>

theorem second_fix_changes_nothing:
  assumes "lookup_file w p = Some \<lparr>data = Some t, writable = True\<rparr>"
    and "search pattern t = Some m"
    and "\<not> (\<exists>u v r. new_content t m = u @ div_open @ v @ doctype @ r)"
  shows "\<exists>w1 w2. fix_nested_html p w = (Inr True, w1) \<and>
     lookup_file w1 p = Some \<lparr>data = Some (new_content t m), writable = True\<rparr> \<and>
     fix_nested_html p w1 = (Inr False, w2) \<and>
     lookup_file w2 p = Some \<lparr>data = Some (new_content t m), writable = True\<rparr>"
proof -
  from lookup_file_dir [OF assms(1)] obtain es where es: "html_dir w = Some es" ..
  let ?w1 = "emit (Print (Fixed_nested p))
        (emit (Write_text p (new_content t m))
           (store p (new_content t m) (emit (Print (Found_nested p)) (emit (Read_text p) w))))"
  have 1: "fix_nested_html p w = (Inr True, ?w1)"
    by (rule fix_nested_html_changed [OF assms(1) _ _ assms(2)]) simp_all
  have 2: "lookup_file ?w1 p = Some \<lparr>data = Some (new_content t m), writable = True\<rparr>"
    using es by (simp add: lookup_file_store [of _ es])
  have 3: "fix_nested_html p ?w1 = (Inr False, emit (Read_text p) ?w1)"
    by (rule fix_nested_html_unchanged [OF 2 _ search_pattern_None [OF assms(3)]]) simp
  have 4: "lookup_file (emit (Read_text p) ?w1) p =
     Some \<lparr>data = Some (new_content t m), writable = True\<rparr>"
    using 2 by simp
  from 1 2 3 4 show ?thesis by blast
qed

theorem second_fix_changes_nothing_witness:
  "lookup_file (one_file scenario) index_html = Some \<lparr>data = Some scenario, writable = True\<rparr> \<and>
   search pattern scenario = Some scenario_match \<and>
   \<not> (\<exists>u v r. new_content scenario scenario_match = u @ div_open @ v @ doctype @ r) \<and>
   (\<exists>w1 w2. fix_nested_html index_html (one_file scenario) = (Inr True, w1) \<and>
     lookup_file w1 index_html = Some \<lparr>data = Some scenario_fixed, writable = True\<rparr> \<and>
     fix_nested_html index_html w1 = (Inr False, w2) \<and>
     lookup_file w2 index_html = Some \<lparr>data = Some scenario_fixed, writable = True\<rparr>)"
proof -
  have 3: "\<not> (\<exists>u v r. new_content scenario scenario_match = u @ div_open @ v @ doctype @ r)"
    unfolding new_content_scenario by (rule scenario_fixed_no_nested)
  from second_fix_changes_nothing [OF lookup_one_file search_scenario 3]
  show ?thesis
    unfolding new_content_scenario
    using lookup_one_file search_scenario scenario_fixed_no_nested by blast
qed

text \<open>
  C5: when the pattern matches, the text written back is the text before the start of the
  match, then groups 1, 3 and 5, then the text after the end of the match; the text read was
  the same with groups 2 and 4 in between, so everything outside the match is kept as it
  is and inside it only groups 2 and 4 are dropped.
\<close>

theorem splice_keeps_surroundings:
  assumes "lookup_file w p = Some \<lparr>data = Some t, writable = True\<rparr>"
    and "search pattern t = Some m"
  shows "\<exists>w'. fix_nested_html p w = (Inr True, w') \<and>
     lookup_file w' p =
       Some \<lparr>data = Some (take (m_start m) t @ group m 1 @ group m 3 @ group m 5 @
                            drop (m_end m) t),
             writable = True\<rparr> \<and>
     t = take (m_start m) t @ group m 1 @ group m 2 @ group m 3 @ group m 4 @ group m 5 @
         drop (m_end m) t"
proof -
  from lookup_file_dir [OF assms(1)] obtain es where es: "html_dir w = Some es" ..
  have n: "new_content t m =
     take (m_start m) t @ group m 1 @ group m 3 @ group m 5 @ drop (m_end m) t"
    by (simp add: new_content_def)
  have "fix_nested_html p w =
     (Inr True,
      emit (Print (Fixed_nested p))
        (emit (Write_text p (new_content t m))
           (store p (new_content t m)
              (emit (Print (Found_nested p)) (emit (Read_text p) w)))))"
    by (rule fix_nested_html_changed [OF assms(1) _ _ assms(2)]) simp_all
  moreover have "lookup_file (emit (Print (Fixed_nested p))
        (emit (Write_text p (new_content t m))
           (store p (new_content t m)
              (emit (Print (Found_nested p)) (emit (Read_text p) w))))) p =
      Some \<lparr>data = Some (new_content t m), writable = True\<rparr>"
    using es by (simp add: lookup_file_store [of _ es])
  ultimately show ?thesis
    using search_decompose [OF assms(2)] unfolding n by blast
qed

theorem splice_keeps_surroundings_witness:
  "lookup_file (one_file nested_page) index_html =
     Some \<lparr>data = Some nested_page, writable = True\<rparr> \<and>
   search pattern nested_page = Some nested_page_match \<and>
   take (m_start nested_page_match) nested_page = str_of ''<!DOCTYPE html><html><body>'' \<and>
   drop (m_end nested_page_match) nested_page = str_of ''</body></html>'' \<and>
   (\<exists>w'. fix_nested_html index_html (one_file nested_page) = (Inr True, w') \<and>
     lookup_file w' index_html =
       Some \<lparr>data = Some (str_of ''<!DOCTYPE html><html><body>'' @ group nested_page_match 1 @
                            group nested_page_match 3 @ group nested_page_match 5 @
                            str_of ''</body></html>''),
             writable = True\<rparr> \<and>
     lookup_file w' index_html = Some \<lparr>data = Some nested_page_fixed, writable = True\<rparr>) \<and>
   nested_page =
     str_of ''<!DOCTYPE html><html><body>'' @ group nested_page_match 1 @
     group nested_page_match 2 @ group nested_page_match 3 @ group nested_page_match 4 @
     group nested_page_match 5 @ str_of ''</body></html>''"
proof -
  have 1: "lookup_file (one_file nested_page) index_html =
     Some \<lparr>data = Some nested_page, writable = True\<rparr>"
    by (rule lookup_one_file)
  from splice_keeps_surroundings [OF 1 search_nested_page] obtain w' where r:
    "fix_nested_html index_html (one_file nested_page) = (Inr True, w')"
    "lookup_file w' index_html =
       Some \<lparr>data = Some (str_of ''<!DOCTYPE html><html><body>'' @ group nested_page_match 1 @
                            group nested_page_match 3 @ group nested_page_match 5 @
                            str_of ''</body></html>''),
             writable = True\<rparr>"
    "nested_page =
     str_of ''<!DOCTYPE html><html><body>'' @ group nested_page_match 1 @
     group nested_page_match 2 @ group nested_page_match 3 @ group nested_page_match 4 @
     group nested_page_match 5 @ str_of ''</body></html>''"
    unfolding nested_page_frame by blast
  from r(2) have 2: "lookup_file w' index_html =
      Some \<lparr>data = Some nested_page_fixed, writable = True\<rparr>"
    unfolding nested_page_spliced .
  from 1 search_nested_page nested_page_frame r 2 show ?thesis by blast
qed

text \<open>
  C6: when the pattern matches again in the text that follows the first match, one call
  of the fix rewrites the leftmost match only (the pattern matches at no earlier offset),
  and the text after the end of that match, the later occurrences in it included, is in
  the result as it was: the second match is still found there.
\<close>

theorem only_first_occurrence_rewritten:
  assumes "lookup_file w p = Some \<lparr>data = Some t, writable = True\<rparr>"
    and "search pattern t = Some m"
    and "search pattern (drop (m_end m) t) = Some m2"
  shows "\<exists>w' t'. fix_nested_html p w = (Inr True, w') \<and>
     lookup_file w' p = Some \<lparr>data = Some t', writable = True\<rparr> \<and>
     (\<forall>j < m_start m. match_at pattern j (drop j t) = None) \<and>
     t' = take (m_start m) t @ group m 1 @ group m 3 @ group m 5 @ drop (m_end m) t \<and>
     drop (m_start m + length (group m 1 @ group m 3 @ group m 5)) t' = drop (m_end m) t \<and>
     search pattern (drop (m_start m + length (group m 1 @ group m 3 @ group m 5)) t') = Some m2"
proof -
  from lookup_file_dir [OF assms(1)] obtain es where es: "html_dir w = Some es" ..
  let ?t' = "take (m_start m) t @ group m 1 @ group m 3 @ group m 5 @ drop (m_end m) t"
  have n: "new_content t m = ?t'"
    by (simp add: new_content_def)
  let ?w = "emit (Print (Fixed_nested p))
        (emit (Write_text p ?t')
           (store p ?t' (emit (Print (Found_nested p)) (emit (Read_text p) w))))"
  have 1: "fix_nested_html p w = (Inr True, ?w)"
    using fix_nested_html_changed [OF assms(1) _ _ assms(2)] unfolding n by simp
  have 2: "lookup_file ?w p = Some \<lparr>data = Some ?t', writable = True\<rparr>"
    using es by (simp add: lookup_file_store [of _ es])
  from search_pattern_Some [OF assms(2)] have "m_start m \<le> length t" by auto
  then have 3: "drop (m_start m + length (group m 1 @ group m 3 @ group m 5)) ?t' =
     drop (m_end m) t"
    by simp
  have 4: "\<forall>j < m_start m. match_at pattern j (drop j t) = None"
    using leftmost [OF assms(2)] by blast
  from 1 2 3 4 assms(3) show ?thesis by (metis (no_types, lifting))
qed

theorem only_first_occurrence_rewritten_witness:
  "lookup_file (one_file two_wrappers) index_html =
     Some \<lparr>data = Some two_wrappers, writable = True\<rparr> \<and>
   search pattern two_wrappers = Some two_wrappers_first \<and>
   search pattern (drop (m_end two_wrappers_first) two_wrappers) = Some two_wrappers_second \<and>
   (\<exists>w'. fix_nested_html index_html (one_file two_wrappers) = (Inr True, w') \<and>
      lookup_file w' index_html = Some \<lparr>data = Some two_wrappers_fixed, writable = True\<rparr> \<and>
      drop 34 two_wrappers_fixed = two_wrappers_tail \<and>
      search pattern (drop 34 two_wrappers_fixed) = Some two_wrappers_second)"
proof -
  have 2: "search pattern (drop (m_end two_wrappers_first) two_wrappers) = Some two_wrappers_second"
    by (simp only: drop_two_wrappers search_two_wrappers_tail)
  have 3: "take (m_start two_wrappers_first) two_wrappers @ group two_wrappers_first 1 @
      group two_wrappers_first 3 @ group two_wrappers_first 5 @
      drop (m_end two_wrappers_first) two_wrappers = two_wrappers_fixed"
    unfolding drop_two_wrappers
    by (simp add: two_wrappers_first_def two_wrappers_tail_def two_wrappers_fixed_def group_def
        str_of_def)
  have 4: "m_start two_wrappers_first +
      length (group two_wrappers_first 1 @ group two_wrappers_first 3 @ group two_wrappers_first 5)
      = 34"
    by (simp add: two_wrappers_first_def group_def str_of_def)
  from only_first_occurrence_rewritten [OF lookup_one_file search_two_wrappers 2]
  obtain w' where
    "fix_nested_html index_html (one_file two_wrappers) = (Inr True, w')"
    "lookup_file w' index_html = Some \<lparr>data = Some two_wrappers_fixed, writable = True\<rparr>"
    "drop 34 two_wrappers_fixed = drop (m_end two_wrappers_first) two_wrappers"
    "search pattern (drop 34 two_wrappers_fixed) = Some two_wrappers_second"
    unfolding 3 4 by blast
  with lookup_one_file search_two_wrappers 2 drop_two_wrappers show ?thesis by auto
qed

text \<open>
  C7: when the target directory does not exist, \<open>main\<close> returns normally and its only
  effect is the message that reports the absence: the trace gains no read and no write,
  and the directory is still absent.
\<close>

theorem missing_directory:
  "html_dir w = None \<Longrightarrow> main w = (Inr (), w\<lparr>trace := trace w @ [Print No_directory]\<rparr>)"
  by (simp add: main_def emit_def)

theorem missing_directory_witness:
  "html_dir \<lparr>html_dir = None, trace = []\<rparr> = None \<and>
   main \<lparr>html_dir = None, trace = []\<rparr> = (Inr (), \<lparr>html_dir = None, trace = [Print No_directory]\<rparr>)"
  using missing_directory [of "\<lparr>html_dir = None, trace = []\<rparr>"] by simp

text \<open>
  C8: when the directory exists and its pages can be read and written, \<open>main\<close> returns
  normally; the files it reads are the entries whose name ends in \<^verbatim>\<open>.html\<close>, each once, in
  sorted order of their names; the files it writes are those among them in which the
  pattern matches; and the last thing it prints is the summary with the number of files
  read and the number of files written. The directory of three pages with one nested
  document reports 3 and 1.
\<close>

theorem batch_processes_sorted_html_files:
  assumes "html_dir w = Some es" and "distinct (map fst es)"
    and "\<forall>(p, f) \<in> set es. suffix (str_of ''.html'') p \<longrightarrow> data f \<noteq> None \<and> writable f"
  shows "\<exists>w' html_files. main w = (Inr (), w') \<and>
     sorted html_files \<and> distinct html_files \<and>
     set html_files = {p \<in> fst ` set es. suffix (str_of ''.html'') p} \<and>
     reads_of (trace w') = reads_of (trace w) @ html_files \<and>
     writes_of (trace w') = writes_of (trace w) @ filter (has_nested w) html_files \<and>
     last (trace w') =
       Print (Processed (length html_files) (length (filter (has_nested w) html_files)))"
proof -
  let ?fs = "sort (glob_html es)"
  have d: "distinct ?fs"
    using assms(2) by (simp add: glob_html_def)
  have s: "set ?fs = {p \<in> fst ` set es. suffix (str_of ''.html'') p}"
    by (auto simp: glob_html_def)
  have u: "\<forall>p \<in> set ?fs. usable w p"
  proof
    fix p assume "p \<in> set ?fs"
    then obtain f where f: "(p, f) \<in> set es" "suffix (str_of ''.html'') p"
      by (auto simp: glob_html_def)
    with assms(3) have "data f \<noteq> None \<and> writable f" by blast
    moreover from f(1) assms(2) have "map_of es p = Some f" by simp
    ultimately show "usable w p"
      using assms(1) by (simp add: usable_def lookup_file_def)
  qed
  from for_files_usable [OF d u, of 0] obtain w1 where w1:
    "for_files ?fs 0 w = (Inr (0 + length (filter (has_nested w) ?fs)), w1)"
    "reads_of (trace w1) = reads_of (trace w) @ ?fs"
    "writes_of (trace w1) = writes_of (trace w) @ filter (has_nested w) ?fs"
    by blast
  let ?w' = "emit (Print (Processed (length ?fs) (length (filter (has_nested w) ?fs)))) w1"
  have m: "main w = (Inr (), ?w')"
    using assms(1) w1(1) by (simp add: main_def Let_def)
  have "sorted ?fs" by simp
  moreover have "reads_of (trace ?w') = reads_of (trace w) @ ?fs"
    using w1(2) by simp
  moreover have "writes_of (trace ?w') = writes_of (trace w) @ filter (has_nested w) ?fs"
    using w1(3) by simp
  moreover have "last (trace ?w') =
     Print (Processed (length ?fs) (length (filter (has_nested w) ?fs)))"
    by simp
  ultimately show ?thesis using m d s by blast
qed

theorem batch_processes_sorted_html_files_witness:
  "html_dir three_pages = Some
        [(c_html, \<lparr>data = Some (str_of ''<p>hello</p>''), writable = True\<rparr>),
         (a_html, \<lparr>data = Some scenario, writable = True\<rparr>),
         (str_of ''notes.txt'', \<lparr>data = None, writable = False\<rparr>),
         (b_html, \<lparr>data = Some clean_page, writable = True\<rparr>)] \<and>
   distinct (map fst
        [(c_html, \<lparr>data = Some (str_of ''<p>hello</p>''), writable = True\<rparr>),
         (a_html, \<lparr>data = Some scenario, writable = True\<rparr>),
         (str_of ''notes.txt'', \<lparr>data = None, writable = False\<rparr>),
         (b_html, \<lparr>data = Some clean_page, writable = True\<rparr>)]) \<and>
   list_all (\<lambda>(p, f). suffix (str_of ''.html'') p \<longrightarrow> data f \<noteq> None \<and> writable f)
        [(c_html, \<lparr>data = Some (str_of ''<p>hello</p>''), writable = True\<rparr>),
         (a_html, \<lparr>data = Some scenario, writable = True\<rparr>),
         (str_of ''notes.txt'', \<lparr>data = None, writable = False\<rparr>),
         (b_html, \<lparr>data = Some clean_page, writable = True\<rparr>)] \<and>
   (\<exists>w'. main three_pages = (Inr (), w') \<and>
      reads_of (trace w') = [a_html, b_html, c_html] \<and>
      writes_of (trace w') = [a_html] \<and>
      last (trace w') = Print (Processed 3 1))"
proof -
  let ?es = "[(c_html, \<lparr>data = Some (str_of ''<p>hello</p>''), writable = True\<rparr>),
         (a_html, \<lparr>data = Some scenario, writable = True\<rparr>),
         (str_of ''notes.txt'', \<lparr>data = None, writable = False\<rparr>),
         (b_html, \<lparr>data = Some clean_page, writable = True\<rparr>)]"
  have 1: "html_dir three_pages = Some ?es"
    by (simp add: three_pages_def)
  have 2: "distinct (map fst ?es)"
    by (simp add: page_names str_of_def)
  have nt: "\<not> suffix (str_of ''.html'') (str_of ''notes.txt'')"
    by code_simp
  have 3: "\<forall>(p, f) \<in> set ?es. suffix (str_of ''.html'') p \<longrightarrow> data f \<noteq> None \<and> writable f"
    using nt by simp
  have g: "filter (suffix (str_of ''.html'')) (map fst ?es) = [c_html, a_html, b_html]"
    unfolding page_names by code_simp
  have "{p \<in> fst ` set ?es. suffix (str_of ''.html'') p} =
      set (filter (suffix (str_of ''.html'')) (map fst ?es))"
    by (simp only: set_filter set_map)
  then have 4: "{p \<in> fst ` set ?es. suffix (str_of ''.html'') p} = set [a_html, b_html, c_html]"
    unfolding g by auto
  have 5: "sorted [a_html, b_html, c_html]" "distinct [a_html, b_html, c_html]"
    unfolding page_names by code_simp+
  from batch_processes_sorted_html_files [OF 1 2 3] obtain w' fs where r:
    "main three_pages = (Inr (), w')" "sorted fs" "distinct fs"
    "set fs = {p \<in> fst ` set ?es. suffix (str_of ''.html'') p}"
    "reads_of (trace w') = reads_of (trace three_pages) @ fs"
    "writes_of (trace w') = writes_of (trace three_pages) @ filter (has_nested three_pages) fs"
    "last (trace w') =
       Print (Processed (length fs) (length (filter (has_nested three_pages) fs)))"
    by blast
  from r(2,3,4) 4 5 have fs: "fs = [a_html, b_html, c_html]"
    by (intro sorted_distinct_set_unique) simp_all
  have t: "trace three_pages = []" by (simp add: three_pages_def)
  have "reads_of (trace w') = [a_html, b_html, c_html]"
    "writes_of (trace w') = [a_html]" "last (trace w') = Print (Processed 3 1)"
    using r(5,6,7) unfolding fs t by (simp_all add: three_pages_nested)
  moreover from 3
  have "list_all (\<lambda>(p, f). suffix (str_of ''.html'') p \<longrightarrow> data f \<noteq> None \<and> writable f) ?es"
    by (simp only: list_all_iff)
  ultimately show ?thesis using r(1) 1 2 by blast
qed

text \<open>
  C9: when the files \<open>ps\<close> that come first in sorted order have been processed, leaving the
  world \<open>w1\<close>, and reading the next file \<open>p\<close> fails, the error leaves \<open>fix_nested_html\<close> and
  then \<open>main\<close> uncaught, and the world is \<open>w1\<close>: what was written for the files before
  \<open>p\<close> stays written, no file after \<open>p\<close> is read or written and no summary is printed.
\<close>

theorem read_failure_aborts_batch:
  assumes "html_dir w = Some es" and "sort (glob_html es) = ps @ p # qs"
    and "for_files ps 0 w = (Inr n, w1)" and "fst (read_text p w1) = Inl e"
  shows "fix_nested_html p w1 = (Inl e, w1) \<and> main w = (Inl e, w1)"
proof -
  from fix_nested_html_unreadable [OF assms(4)]
  have 1: "fix_nested_html p w1 = (Inl e, w1)" by simp
  from for_files_abort [OF assms(3) 1]
  have "for_files (ps @ p # qs) 0 w = (Inl e, w1)" .
  with assms(1,2) have "main w = (Inl e, w1)"
    by (simp add: main_def Let_def)
  with 1 show ?thesis ..
qed

theorem read_failure_aborts_batch_witness:
  "html_dir broken_batch = Some
        [(a_html, \<lparr>data = Some scenario, writable = True\<rparr>),
         (b_html, \<lparr>data = None, writable = True\<rparr>),
         (c_html, \<lparr>data = Some scenario, writable = True\<rparr>)] \<and>
   sort (glob_html
        [(a_html, \<lparr>data = Some scenario, writable = True\<rparr>),
         (b_html, \<lparr>data = None, writable = True\<rparr>),
         (c_html, \<lparr>data = Some scenario, writable = True\<rparr>)]) = [a_html] @ b_html # [c_html] \<and>
   for_files [a_html] 0 broken_batch = (Inr 1, broken_batch_aborted) \<and>
   fst (read_text b_html broken_batch_aborted) = Inl (Read_failed b_html) \<and>
   fix_nested_html b_html broken_batch_aborted = (Inl (Read_failed b_html), broken_batch_aborted) \<and>
   main broken_batch = (Inl (Read_failed b_html), broken_batch_aborted)"
proof -
  let ?es = "[(a_html, \<lparr>data = Some scenario, writable = True\<rparr>),
         (b_html, \<lparr>data = None, writable = True\<rparr>),
         (c_html, \<lparr>data = Some scenario, writable = True\<rparr>)]"
  have 1: "html_dir broken_batch = Some ?es"
    by (simp add: broken_batch_def)
  have 2: "sort (glob_html ?es) = [a_html] @ b_html # [c_html]"
    unfolding glob_html_def page_names by code_simp
  have l: "lookup_file broken_batch a_html = Some \<lparr>data = Some scenario, writable = True\<rparr>"
    by (simp add: broken_batch_def lookup_file_def)
  have "fix_nested_html a_html broken_batch = (Inr True, broken_batch_aborted)"
    using fix_nested_html_changed [OF l _ _ search_scenario]
    by (simp add: new_content_scenario broken_batch_def broken_batch_aborted_def emit_def
        store_def)
  then have 3: "for_files [a_html] 0 broken_batch = (Inr 1, broken_batch_aborted)"
    by simp
  have 4: "fst (read_text b_html broken_batch_aborted) = Inl (Read_failed b_html)"
    by (simp add: read_text_def lookup_file_def broken_batch_aborted_def page_names str_of_def)
  from read_failure_aborts_batch [OF 1 2 3 4] 1 2 3 4 show ?thesis by blast
qed

text \<open>
  C10: whatever the text of the file, the text it holds after the fix is a subsequence of
  the text before, so characters are deleted only, never inserted or reordered, and the
  length does not grow. Without a match the text is the same; with a match the length
  drops by exactly the lengths of groups 2 and 4.
\<close>

theorem fix_only_deletes:
  assumes "lookup_file w p = Some \<lparr>data = Some t, writable = True\<rparr>"
  shows "\<exists>b w' t'. fix_nested_html p w = (Inr b, w') \<and>
     lookup_file w' p = Some \<lparr>data = Some t', writable = True\<rparr> \<and>
     subseq t' t \<and> length t' \<le> length t \<and>
     (search pattern t = None \<longrightarrow> t' = t) \<and>
     (\<forall>m. search pattern t = Some m \<longrightarrow>
        t = take (m_start m) t @ group m 1 @ group m 2 @ group m 3 @ group m 4 @ group m 5 @
            drop (m_end m) t \<and>
        t' = take (m_start m) t @ group m 1 @ group m 3 @ group m 5 @ drop (m_end m) t \<and>
        length t' + length (group m 2) + length (group m 4) = length t)"
proof (cases "search pattern t")
  case None
  have "fix_nested_html p w = (Inr False, emit (Read_text p) w)"
    by (rule fix_nested_html_unchanged [OF assms _ None]) simp
  with assms None show ?thesis by auto
next
  case (Some m)
  from lookup_file_dir [OF assms] obtain es where es: "html_dir w = Some es" ..
  let ?t' = "take (m_start m) t @ group m 1 @ group m 3 @ group m 5 @ drop (m_end m) t"
  have n: "new_content t m = ?t'"
    by (simp add: new_content_def)
  let ?w = "emit (Print (Fixed_nested p))
        (emit (Write_text p ?t')
           (store p ?t' (emit (Print (Found_nested p)) (emit (Read_text p) w))))"
  have 1: "fix_nested_html p w = (Inr True, ?w)"
    using fix_nested_html_changed [OF assms _ _ Some] unfolding n by simp
  have 2: "lookup_file ?w p = Some \<lparr>data = Some ?t', writable = True\<rparr>"
    using es by (simp add: lookup_file_store [of _ es])
  from new_content_deletes [OF Some] have 3: "subseq ?t' t"
    and 4: "length ?t' + length (group m 2) + length (group m 4) = length t"
    unfolding n by simp_all
  from 4 have 5: "length ?t' \<le> length t" by linarith
  note 6 = search_decompose [OF Some]
  have 7: "search pattern t = None \<longrightarrow> ?t' = t"
    using Some by simp
  have 8: "\<forall>m'. search pattern t = Some m' \<longrightarrow>
        t = take (m_start m') t @ group m' 1 @ group m' 2 @ group m' 3 @ group m' 4 @
            group m' 5 @ drop (m_end m') t \<and>
        ?t' = take (m_start m') t @ group m' 1 @ group m' 3 @ group m' 5 @ drop (m_end m') t \<and>
        length ?t' + length (group m' 2) + length (group m' 4) = length t"
  proof (intro allI impI)
    fix m' assume "search pattern t = Some m'"
    with Some have m': "m' = m" by simp
    show "t = take (m_start m') t @ group m' 1 @ group m' 2 @ group m' 3 @ group m' 4 @
            group m' 5 @ drop (m_end m') t \<and>
        ?t' = take (m_start m') t @ group m' 1 @ group m' 3 @ group m' 5 @ drop (m_end m') t \<and>
        length ?t' + length (group m' 2) + length (group m' 4) = length t"
      unfolding m' by (intro conjI) (rule 6, rule refl, rule 4)
  qed
  show ?thesis
    by (intro exI [of _ True] exI [of _ ?w] exI [of _ ?t'] conjI) (rule 1 2 3 5 7 8)+
qed

theorem fix_only_deletes_witness:
  "lookup_file (one_file scenario) index_html =
     Some \<lparr>data = Some scenario, writable = True\<rparr> \<and>
   search pattern scenario = Some scenario_match \<and>
   (\<exists>b w' t'. fix_nested_html index_html (one_file scenario) = (Inr b, w') \<and>
     lookup_file w' index_html = Some \<lparr>data = Some t', writable = True\<rparr> \<and>
     subseq t' scenario \<and> length t' + 37 + 14 = (91::nat))"
proof -
  have 1: "lookup_file (one_file scenario) index_html =
     Some \<lparr>data = Some scenario, writable = True\<rparr>"
    by (rule lookup_one_file)
  have 2: "length (group scenario_match 2) = 37" "length (group scenario_match 4) = 14"
    "length scenario = 91"
    by (simp_all add: scenario_match_def scenario_def group_def str_of_def)
  from fix_only_deletes [OF 1] obtain b w' t' where r:
    "fix_nested_html index_html (one_file scenario) = (Inr b, w')"
    "lookup_file w' index_html = Some \<lparr>data = Some t', writable = True\<rparr>"
    "subseq t' scenario"
    "\<forall>m. search pattern scenario = Some m \<longrightarrow>
        scenario = take (m_start m) scenario @ group m 1 @ group m 2 @ group m 3 @ group m 4 @
            group m 5 @ drop (m_end m) scenario \<and>
        t' = take (m_start m) scenario @ group m 1 @ group m 3 @ group m 5 @
            drop (m_end m) scenario \<and>
        length t' + length (group m 2) + length (group m 4) = length scenario"
    by blast
  from r(4) search_scenario
  have "length t' + length (group scenario_match 2) + length (group scenario_match 4) =
      length scenario"
    by blast
  then have "length t' + 37 + 14 = (91::nat)"
    unfolding 2 .
  with r(1,2,3) 1 search_scenario show ?thesis by blast
qed

end
